theory Spec2Isabelle
  imports Main "HOL-Library.Word"
begin

section \<open>Data model of the RFID2 module\<close>

text \<open>
  The module \<^verbatim>\<open>RFID2.cpp\<close> drives an MFRC522 reader controller. The controller library
  is not part of the module: every call the module makes to it is recorded in a call log
  (\<open>calls\<close>), and what the controller answers is a parameter (\<open>Reader\<close>) whose answers
  may depend on the whole log so far, so that every deterministic tag behaviour is covered.
\<close>

type_synonym byte = "8 word"

text \<open>Modelled from the spec: the result-code enumeration is declared in a header that is
  not among the sources; section 6 of the specification lists its five values.\<close>

datatype return_code = SUCCESS | FAILURE | TAG_NOT_PRESENT | TAG_NOT_MATCH | TAG_AUTH_ERROR

text \<open>Status codes of the controller library. The module only tells \<open>STATUS_OK\<close>,
  \<open>STATUS_COLLISION\<close> and \<open>STATUS_MIFARE_NACK\<close> apart from the rest.\<close>

datatype StatusCode =
  STATUS_OK | STATUS_ERROR | STATUS_COLLISION | STATUS_TIMEOUT | STATUS_MIFARE_NACK

datatype PICC_Type =
  PICC_TYPE_MIFARE_MINI | PICC_TYPE_MIFARE_1K | PICC_TYPE_MIFARE_4K | PICC_TYPE_MIFARE_UL
  | PICC_TYPE_OTHER byte

datatype PICC_Command = PICC_CMD_MF_AUTH_KEY_A | PICC_CMD_MF_AUTH_KEY_B

record Uid =
  uid_size :: byte
  uidByte :: "byte list"
  uid_sak :: byte

record PrintableUID =
  p_uid :: string
  p_bcc :: string
  p_sak :: string
  p_atqa :: string
  p_picc_type :: string

record NdefMessage =
  ndef_begin :: byte
  messageSize :: byte
  ndef_header :: byte
  tnf :: byte
  payloadSize :: byte
  payloadType :: byte
  payload :: "nat \<Rightarrow> byte"
  ndef_end :: byte

text \<open>The calls the module issues to the reader controller, with their arguments.\<close>

datatype pcd_call =
  Call_PICC_RequestA
  | Call_PICC_IsNewCardPresent
  | Call_PICC_ReadCardSerial
  | Call_PCD_Authenticate PICC_Command byte "byte list"
  | Call_MIFARE_Read byte
  | Call_MIFARE_Write byte "byte list" byte
  | Call_MIFARE_Ultralight_Write byte "byte list" byte
  | Call_MIFARE_SetUid "byte list" byte
  | Call_PICC_HaltA
  | Call_PCD_StopCrypto1

text \<open>The fields of the \<open>RFID2\<close> object that the operations read and write, the
  \<open>uid\<close> field of the controller object (\<open>mfrc522_uid\<close>), and the call log.\<close>

record RFID2 =
  mfrc522_uid :: Uid
  uid :: Uid
  printableUID :: PrintableUID
  ndefMessage :: NdefMessage
  totalPages :: int
  dataPages :: int
  pageReadSuccess :: bool
  pageReadStatus :: return_code
  strAllPages :: string
  calls :: "pcd_call list"

text \<open>The reader controller and the tag in its field: two pure library functions and,
  for every call, the answer as a function of the calls made before it.\<close>

record Reader =
  PICC_GetType :: "byte \<Rightarrow> PICC_Type"
  PICC_GetTypeName :: "PICC_Type \<Rightarrow> string"
  resp_RequestA :: "pcd_call list \<Rightarrow> StatusCode \<times> byte list"
  resp_IsNewCardPresent :: "pcd_call list \<Rightarrow> bool"
  resp_ReadCardSerial :: "pcd_call list \<Rightarrow> bool \<times> Uid"
  resp_Authenticate :: "pcd_call list \<Rightarrow> PICC_Command \<Rightarrow> byte \<Rightarrow> byte list \<Rightarrow> Uid \<Rightarrow> StatusCode"
  resp_Read :: "pcd_call list \<Rightarrow> byte \<Rightarrow> StatusCode \<times> (nat \<Rightarrow> byte)"
  resp_Write :: "pcd_call list \<Rightarrow> byte \<Rightarrow> byte list \<Rightarrow> byte \<Rightarrow> StatusCode"
  resp_Ultralight_Write :: "pcd_call list \<Rightarrow> byte \<Rightarrow> byte list \<Rightarrow> byte \<Rightarrow> StatusCode"
  resp_SetUid :: "pcd_call list \<Rightarrow> byte list \<Rightarrow> byte \<Rightarrow> bool"

section \<open>Arduino String operations used by the module\<close>

definition isspace :: "char \<Rightarrow> bool" where
  "isspace c = (c \<in> set [CHR '' '', CHR 0x09, CHR 0x0A, CHR 0x0B, CHR 0x0C, CHR 0x0D])"

definition trim :: "string \<Rightarrow> string" where
  "trim s = rev (dropWhile isspace (rev (dropWhile isspace s)))"

definition toupper :: "char \<Rightarrow> char" where
  "toupper c = (let n = (of_char c :: nat) in if 97 \<le> n \<and> n \<le> 122 then char_of (n - 32) else c)"

definition toUpperCase :: "string \<Rightarrow> string" where
  "toUpperCase s = map toupper s"

text \<open>\<open>substring\<close> takes unsigned arguments: an \<open>int\<close> argument is converted modulo
  \<open>2 ^ 32\<close> (\<open>unsigned_arg\<close>), so that \<open>-1\<close> becomes the largest index.\<close>

definition unsigned_arg :: "int \<Rightarrow> nat" where
  "unsigned_arg i = nat (i mod 2 ^ 32)"

definition substring :: "nat \<Rightarrow> nat \<Rightarrow> string \<Rightarrow> string" where
  "substring left right s =
     (let l = (if left > right then right else left);
          r = (if left > right then left else right)
      in if l \<ge> length s then [] else take (min r (length s) - l) (drop l s))"

definition substring_from :: "nat \<Rightarrow> string \<Rightarrow> string" where
  "substring_from beginIndex s = substring beginIndex (length s) s"

definition indexOf :: "char \<Rightarrow> string \<Rightarrow> int" where
  "indexOf c s = (if c \<in> set s then int (length (takeWhile (\<lambda>x. x \<noteq> c) s)) else - 1)"

definition startsWith :: "string \<Rightarrow> string \<Rightarrow> bool" where
  "startsWith p s = (take (length p) s = p)"

definition remove_spaces :: "string \<Rightarrow> string" where
  "remove_spaces s = filter (\<lambda>c. c \<noteq> CHR '' '') s"

definition digit_char :: "nat \<Rightarrow> char" where
  "digit_char d = ''0123456789abcdef'' ! d"

text \<open>\<open>String(b, HEX)\<close> for a byte: lower-case digits, no leading zero.\<close>

definition String_HEX :: "byte \<Rightarrow> string" where
  "String_HEX b =
     (if unat b < 16 then [digit_char (unat b)]
      else [digit_char (unat b div 16), digit_char (unat b mod 16)])"

fun dec_nat :: "nat \<Rightarrow> string" where
  "dec_nat n = (if n < 10 then [digit_char n] else dec_nat (n div 10) @ [digit_char (n mod 10)])"

declare dec_nat.simps [simp del]

definition String_int :: "int \<Rightarrow> string" where
  "String_int i = (if i < 0 then CHR ''-'' # dec_nat (nat (- i)) else dec_nat (nat i))"

definition digit_value :: "char \<Rightarrow> nat option" where
  "digit_value c =
     (let n = (of_char c :: nat) in
      if 48 \<le> n \<and> n \<le> 57 then Some (n - 48)
      else if 97 \<le> n \<and> n \<le> 102 then Some (n - 87)
      else if 65 \<le> n \<and> n \<le> 70 then Some (n - 55)
      else None)"

fun digits_val :: "nat \<Rightarrow> nat \<Rightarrow> string \<Rightarrow> nat" where
  "digits_val base acc [] = acc"
| "digits_val base acc (c # cs) =
     (case digit_value c of
        Some d \<Rightarrow> if d < base then digits_val base (acc * base + d) cs else acc
      | None \<Rightarrow> acc)"

text \<open>\<open>toInt\<close> is \<open>atol\<close>: white space, an optional sign, decimal digits.\<close>

definition toInt :: "string \<Rightarrow> int" where
  "toInt s =
     (case dropWhile isspace s of
        [] \<Rightarrow> 0
      | c # r \<Rightarrow>
          if c = CHR ''-'' then - int (digits_val 10 0 r)
          else if c = CHR ''+'' then int (digits_val 10 0 r)
          else int (digits_val 10 0 (c # r)))"

text \<open>\<open>strtoul(s, NULL, 16)\<close> stored in a byte: white space, an optional sign, an optional
  \<open>0x\<close> prefix, hexadecimal digits; the value is reduced modulo 256 by the store.\<close>

definition skip_0x :: "string \<Rightarrow> string" where
  "skip_0x s =
     (case s of
        a # b # c # r \<Rightarrow>
          if a = CHR ''0'' \<and> (b = CHR ''x'' \<or> b = CHR ''X'') \<and> digit_value c \<noteq> None
          then c # r else s
      | _ \<Rightarrow> s)"

definition strtoul16 :: "string \<Rightarrow> byte" where
  "strtoul16 s =
     (case dropWhile isspace s of
        [] \<Rightarrow> 0
      | c # r \<Rightarrow>
          if c = CHR ''-'' then - of_nat (digits_val 16 0 (skip_0x r))
          else if c = CHR ''+'' then of_nat (digits_val 16 0 (skip_0x r))
          else of_nat (digits_val 16 0 (skip_0x (c # r))))"

text \<open>The formatting loop shared by the read paths: each byte as \<open>" 0"\<close> or \<open>" "\<close>
  followed by its hexadecimal digits, then \<open>trim\<close> and \<open>toUpperCase\<close>.\<close>

definition hex_bytes :: "byte list \<Rightarrow> string" where
  "hex_bytes bs =
     toUpperCase (trim (concat (map (\<lambda>b. (if b < 0x10 then '' 0'' else '' '') @ String_HEX b) bs)))"

text \<open>The parsing loop shared by the write paths and \<open>parse_data\<close>: two characters at a
  time through \<open>strtoul\<close>.\<close>

fun hex_buffer :: "string \<Rightarrow> byte list" where
  "hex_buffer [] = []"
| "hex_buffer [a] = [strtoul16 [a]]"
| "hex_buffer (a # b # r) = strtoul16 [a, b] # hex_buffer r"

section \<open>Calls to the reader controller\<close>

definition log_call :: "pcd_call \<Rightarrow> RFID2 \<Rightarrow> RFID2" where
  "log_call c s = s\<lparr>calls := calls s @ [c]\<rparr>"

definition PCD_Authenticate ::
  "Reader \<Rightarrow> PICC_Command \<Rightarrow> byte \<Rightarrow> byte list \<Rightarrow> RFID2 \<Rightarrow> StatusCode \<times> RFID2" where
  "PCD_Authenticate rd cmd blockAddr key s =
     (resp_Authenticate rd (calls s) cmd blockAddr key (mfrc522_uid s),
      log_call (Call_PCD_Authenticate cmd blockAddr key) s)"

definition MIFARE_Read :: "Reader \<Rightarrow> byte \<Rightarrow> RFID2 \<Rightarrow> StatusCode \<times> (nat \<Rightarrow> byte) \<times> RFID2" where
  "MIFARE_Read rd blockAddr s =
     (fst (resp_Read rd (calls s) blockAddr), snd (resp_Read rd (calls s) blockAddr),
      log_call (Call_MIFARE_Read blockAddr) s)"



definition PICC_HaltA :: "RFID2 \<Rightarrow> RFID2" where
  "PICC_HaltA s = log_call Call_PICC_HaltA s"

definition PCD_StopCrypto1 :: "RFID2 \<Rightarrow> RFID2" where
  "PCD_StopCrypto1 s = log_call Call_PCD_StopCrypto1 s"

section \<open>Key dictionary and sector authentication\<close>

text \<open>\<open>dict_keys\<close> is declared with 80 rows of 6 bytes and initialised with 78 rows: the
  two rows without an initialiser are zero.\<close>

definition dict_keys :: "byte list list" where
  "dict_keys = [
    [0xFF, 0xFF, 0xFF, 0xFF, 0xFF, 0xFF], [0xA0, 0xA1, 0xA2, 0xA3, 0xA4, 0xA5], [0xB0, 0xB1, 0xB2, 0xB3, 0xB4, 0xB5],
    [0x4D, 0x3A, 0x99, 0xC3, 0x51, 0xDD], [0x1A, 0x98, 0x2C, 0x7E, 0x45, 0x9A], [0xAA, 0xBB, 0xCC, 0xDD, 0xEE, 0xFF],
    [0x71, 0x4C, 0x5C, 0x88, 0x6E, 0x97], [0x58, 0x7E, 0xE5, 0xF9, 0x35, 0x0F], [0xA0, 0x47, 0x8C, 0xC3, 0x90, 0x91],
    [0x53, 0x3C, 0xB6, 0xC7, 0x23, 0xF6], [0x8F, 0xD0, 0xA4, 0xF2, 0x56, 0xE9], [0xA6, 0x45, 0x98, 0xA7, 0x74, 0x78],
    [0x26, 0x94, 0x0B, 0x21, 0xFF, 0x5D], [0xFC, 0x00, 0x01, 0x87, 0x78, 0xF7], [0x00, 0x00, 0x0F, 0xFE, 0x24, 0x88],
    [0xD3, 0xF7, 0xD3, 0xF7, 0xD3, 0xF7], [0xA0, 0xB0, 0xC0, 0xD0, 0xE0, 0xF0], [0xA1, 0xB1, 0xC1, 0xD1, 0xE1, 0xF1],
    [0x12, 0x34, 0x56, 0x78, 0x9A, 0xBC], [0x01, 0x02, 0x03, 0x04, 0x05, 0x06], [0x11, 0x22, 0x33, 0x44, 0x55, 0x66],
    [0x99, 0x99, 0x99, 0x99, 0x99, 0x99], [0x77, 0x77, 0x77, 0x77, 0x77, 0x77], [0xE1, 0x10, 0xDC, 0x2F, 0x10, 0xDC],
    [0x32, 0xA1, 0x85, 0x33, 0x22, 0x11], [0x44, 0x44, 0x44, 0x44, 0x44, 0x44], [0x88, 0x88, 0x88, 0x88, 0x88, 0x88],
    [0x04, 0x19, 0x2B, 0x27, 0x0B, 0x09], [0x19, 0x70, 0x03, 0x03, 0x19, 0x70], [0x10, 0x10, 0x10, 0x10, 0x10, 0x10],
    [0x01, 0x23, 0x45, 0x67, 0x89, 0xAB], [0x41, 0x43, 0x52, 0x31, 0x32, 0x32], [0x13, 0x57, 0x9A, 0xDF, 0x26, 0x48],
    [0xFF, 0x00, 0xFF, 0x00, 0xFF, 0x00], [0x00, 0x00, 0x00, 0x00, 0x00, 0x00], [0x14, 0x07, 0x88, 0x14, 0x07, 0x88],
    [0x20, 0x21, 0x22, 0x23, 0x24, 0x25], [0x60, 0x61, 0x62, 0x63, 0x64, 0x65], [0x70, 0x71, 0x72, 0x73, 0x74, 0x75],
    [0x80, 0x81, 0x82, 0x83, 0x84, 0x85], [0x90, 0x91, 0x92, 0x93, 0x94, 0x95], [0xA0, 0xB1, 0xC2, 0xD3, 0xE4, 0xF5],
    [0x54, 0x43, 0x52, 0x11, 0x22, 0x33], [0x08, 0x08, 0x08, 0x08, 0x08, 0x08], [0x4B, 0x45, 0x59, 0x47, 0x45, 0x4E],
    [0xAB, 0xCD, 0xEF, 0x12, 0x34, 0x56], [0x25, 0x82, 0xA1, 0x99, 0x77, 0x00], [0x12, 0x12, 0x12, 0x12, 0x12, 0x12],
    [0x34, 0x34, 0x34, 0x34, 0x34, 0x34], [0x56, 0x56, 0x56, 0x56, 0x56, 0x56], [0x78, 0x78, 0x78, 0x78, 0x78, 0x78],
    [0x90, 0x90, 0x90, 0x90, 0x90, 0x90], [0x22, 0x22, 0x22, 0x22, 0x22, 0x22], [0x33, 0x33, 0x33, 0x33, 0x33, 0x33],
    [0x44, 0x44, 0x44, 0x44, 0x44, 0x44], [0x55, 0x55, 0x55, 0x55, 0x55, 0x55], [0x66, 0x66, 0x66, 0x66, 0x66, 0x66],
    [0xCC, 0xCC, 0xCC, 0xCC, 0xCC, 0xCC], [0xEE, 0xEE, 0xEE, 0xEE, 0xEE, 0xEE], [0x11, 0x11, 0x11, 0x11, 0x11, 0x11],
    [0x22, 0x33, 0x44, 0x55, 0x66, 0x77], [0x44, 0x55, 0x66, 0x77, 0x88, 0x99], [0x01, 0x02, 0x03, 0x04, 0x05, 0x01],
    [0xA1, 0xA2, 0xA3, 0xA4, 0xA5, 0xA6], [0xB1, 0xB2, 0xB3, 0xB4, 0xB5, 0xB6], [0xC1, 0xC2, 0xC3, 0xC4, 0xC5, 0xC6],
    [0xD1, 0xD2, 0xD3, 0xD4, 0xD5, 0xD6], [0x10, 0x20, 0x30, 0x40, 0x50, 0x60], [0x07, 0x07, 0x07, 0x07, 0x07, 0x07],
    [0x09, 0x09, 0x09, 0x09, 0x09, 0x09], [0x1A, 0x2B, 0x3C, 0x4D, 0x5E, 0x6F], [0x6F, 0x5E, 0x4D, 0x3C, 0x2B, 0x1A],
    [0xAA, 0x55, 0xAA, 0x55, 0xAA, 0x55], [0x55, 0xAA, 0x55, 0xAA, 0x55, 0xAA], [0x11, 0x11, 0x22, 0x22, 0x33, 0x33],
    [0x33, 0x33, 0x22, 0x22, 0x11, 0x11], [0x4D, 0x49, 0x46, 0x41, 0x52, 0x45], [0x41, 0x42, 0x43, 0x44, 0x45, 0x46],
    [0x00, 0x00, 0x00, 0x00, 0x00, 0x00], [0x00, 0x00, 0x00, 0x00, 0x00, 0x00]]"

text \<open>The body of the loop \<open>for (int i = 0; i < 80; i++)\<close>, by recursion over the rows
  still to try: the row is copied into \<open>key\<close>, tried as Key A, then as Key B.\<close>

fun authenticate_keys :: "Reader \<Rightarrow> byte \<Rightarrow> byte list list \<Rightarrow> RFID2 \<Rightarrow> return_code \<times> RFID2" where
  "authenticate_keys rd trailerBlock [] s = (TAG_AUTH_ERROR, s)"
| "authenticate_keys rd trailerBlock (row # rows) s =
     (let key = map (\<lambda>k. row ! k) [0..<6];
          (statusA, s1) = PCD_Authenticate rd PICC_CMD_MF_AUTH_KEY_A trailerBlock key s
      in if statusA = STATUS_OK then (SUCCESS, s1)
         else let (statusB, s2) = PCD_Authenticate rd PICC_CMD_MF_AUTH_KEY_B trailerBlock key s1
              in if statusB = STATUS_OK then (SUCCESS, s2)
                 else authenticate_keys rd trailerBlock rows s2)"

definition authenticate_mifare_classic :: "Reader \<Rightarrow> byte \<Rightarrow> RFID2 \<Rightarrow> return_code \<times> RFID2" where
  "authenticate_mifare_classic rd block s =
     (let sector = block div 4;
          trailerBlock = sector * 4 + 3
      in authenticate_keys rd trailerBlock dict_keys s)"

section \<open>Reading a MIFARE Classic tag\<close>

text \<open>The sector layout computed at the head of \<open>read_mifare_classic_data_sector\<close>:
  \<open>(no_of_blocks, firstBlock)\<close>, or \<open>None\<close> where the function returns FAILURE.\<close>

definition sector_layout :: "byte \<Rightarrow> (byte \<times> byte) option" where
  "sector_layout sector =
     (if sector < 32 then Some (4, sector * 4)
      else if sector < 40 then Some (16, 128 + (sector - 32) * 16)
      else None)"

definition page_line :: "int \<Rightarrow> string \<Rightarrow> string" where
  "page_line n strPage = ''Page '' @ String_int n @ '': '' @ strPage @ [CHR 0x0A]"

text \<open>The loop over \<open>blockOffset\<close>, by recursion over the offsets still to read.\<close>

fun read_sector_blocks :: "Reader \<Rightarrow> byte \<Rightarrow> nat list \<Rightarrow> RFID2 \<Rightarrow> return_code \<times> RFID2" where
  "read_sector_blocks rd firstBlock [] s = (SUCCESS, s)"
| "read_sector_blocks rd firstBlock (blockOffset # rest) s =
     (let blockAddr = firstBlock + of_nat blockOffset;
          (status, buffer, s1) = MIFARE_Read rd blockAddr s
      in if status \<noteq> STATUS_OK then (FAILURE, s1)
         else let strPage = hex_bytes (map buffer [0..<16]);
                  s2 = s1\<lparr>strAllPages := strAllPages s1 @ page_line (dataPages s1) strPage,
                          dataPages := dataPages s1 + 1\<rparr>
              in read_sector_blocks rd firstBlock rest s2)"

definition read_mifare_classic_data_sector :: "Reader \<Rightarrow> byte \<Rightarrow> RFID2 \<Rightarrow> return_code \<times> RFID2" where
  "read_mifare_classic_data_sector rd sector s =
     (case sector_layout sector of
        None \<Rightarrow> (FAILURE, s)
      | Some (no_of_blocks, firstBlock) \<Rightarrow>
          let (authStatus, s1) = authenticate_mifare_classic rd firstBlock s
          in read_sector_blocks rd firstBlock [0..<unat no_of_blocks] s1)"

text \<open>The loop over the sectors: \<open>sectorReadStatus\<close> holds the status of the last sector
  read, and the loop stops at the first sector that is not SUCCESS.\<close>

fun read_sectors :: "Reader \<Rightarrow> nat list \<Rightarrow> return_code \<Rightarrow> RFID2 \<Rightarrow> return_code \<times> RFID2" where
  "read_sectors rd [] sectorReadStatus s = (sectorReadStatus, s)"
| "read_sectors rd (i # rest) sectorReadStatus s =
     (let (status, s1) = read_mifare_classic_data_sector rd (of_nat i) s
      in if status \<noteq> SUCCESS then (status, s1) else read_sectors rd rest status s1)"

definition read_mifare_classic_data_blocks :: "Reader \<Rightarrow> PICC_Type \<Rightarrow> RFID2 \<Rightarrow> return_code \<times> RFID2" where
  "read_mifare_classic_data_blocks rd piccType s =
     (let (no_of_sectors, s0) =
            (case piccType of
               PICC_TYPE_MIFARE_MINI \<Rightarrow> (5 :: nat, s\<lparr>totalPages := 20\<rparr>)
             | PICC_TYPE_MIFARE_1K \<Rightarrow> (16, s\<lparr>totalPages := 64\<rparr>)
             | PICC_TYPE_MIFARE_4K \<Rightarrow> (40, s\<lparr>totalPages := 256\<rparr>)
             | _ \<Rightarrow> (0, s));
          (sectorReadStatus, s1) = read_sectors rd [0..<no_of_sectors] FAILURE s0
      in (sectorReadStatus, PCD_StopCrypto1 (PICC_HaltA s1)))"

section \<open>Reading a MIFARE Ultralight tag\<close>

text \<open>The loop over \<open>offset\<close> inside one burst of four pages: the capability-container
  switch at page 3, then the page line.\<close>

fun store_ultralight_pages :: "byte \<Rightarrow> (nat \<Rightarrow> byte) \<Rightarrow> nat list \<Rightarrow> RFID2 \<Rightarrow> RFID2" where
  "store_ultralight_pages page buffer [] s = s"
| "store_ultralight_pages page buffer (offset # rest) s =
     (let s1 = (if unat page + offset = 3
                then (let cc = buffer (4 * offset + 2)
                      in if cc = 0x12 then s\<lparr>totalPages := 45\<rparr>
                         else if cc = 0x3E then s\<lparr>totalPages := 135\<rparr>
                         else if cc = 0x6D then s\<lparr>totalPages := 231\<rparr>
                         else s)
                else s);
          strPage = hex_bytes (map (\<lambda>index. buffer (4 * offset + index)) [0..<4]);
          s2 = s1\<lparr>strAllPages := strAllPages s1 @ page_line (dataPages s1) strPage,
                  dataPages := dataPages s1 + 1\<rparr>
      in store_ultralight_pages page buffer rest s2)"

text \<open>The loop \<open>for (byte page = 0; page <= 252; page += 4)\<close>. The counter is a byte, so
  \<open>page + 4\<close> is taken modulo 256; the loop need not end, and \<open>None\<close> stands for a call
  that does not return.\<close>

partial_function (option) read_ultralight_from ::
  "Reader \<Rightarrow> byte \<Rightarrow> RFID2 \<Rightarrow> (return_code \<times> RFID2) option" where
  "read_ultralight_from rd page s =
     (if \<not> page \<le> 252 then Some (SUCCESS, s)
      else let (status, buffer, s1) = MIFARE_Read rd page s
           in if status \<noteq> STATUS_OK
              then Some (if status = STATUS_MIFARE_NACK then SUCCESS else FAILURE, s1)
              else read_ultralight_from rd (page + 4)
                     (store_ultralight_pages page buffer [0..<4] s1))"

definition read_mifare_ultralight_data_blocks :: "Reader \<Rightarrow> RFID2 \<Rightarrow> (return_code \<times> RFID2) option" where
  "read_mifare_ultralight_data_blocks rd s = read_ultralight_from rd 0 s"

definition read_data_blocks :: "Reader \<Rightarrow> RFID2 \<Rightarrow> (return_code \<times> RFID2) option" where
  "read_data_blocks rd s =
     (let s0 = s\<lparr>dataPages := 0, totalPages := 0, strAllPages := []\<rparr>;
          piccType = PICC_GetType rd (uid_sak (mfrc522_uid s0))
      in if piccType = PICC_TYPE_MIFARE_MINI \<or> piccType = PICC_TYPE_MIFARE_1K
            \<or> piccType = PICC_TYPE_MIFARE_4K
         then (let (readStatus, s1) = read_mifare_classic_data_blocks rd piccType s0
               in Some (readStatus, PICC_HaltA s1))
         else if piccType = PICC_TYPE_MIFARE_UL
         then (case read_mifare_ultralight_data_blocks rd s0 of
                 None \<Rightarrow> None
               | Some (readStatus, s1) \<Rightarrow>
                   let s2 = s1\<lparr>dataPages := (if readStatus = SUCCESS \<and> dataPages s1 > 0
                                               then dataPages s1 - 1 else dataPages s1)\<rparr>;
                       s3 = (if totalPages s2 = 0 then s2\<lparr>totalPages := dataPages s2\<rparr> else s2)
                   in Some (readStatus, PICC_HaltA s3))
         else Some (FAILURE, PICC_HaltA s0))"

section \<open>Detection, formatting and the read operation\<close>

definition RFID2_PICC_IsNewCardPresent :: "Reader \<Rightarrow> RFID2 \<Rightarrow> bool \<times> RFID2" where
  "RFID2_PICC_IsNewCardPresent rd s =
     (let (result, bufferATQA) = resp_RequestA rd (calls s);
          s1 = log_call Call_PICC_RequestA s;
          bl_result = (result = STATUS_OK \<or> result = STATUS_COLLISION)
      in if bl_result
         then (True, s1\<lparr>printableUID := (printableUID s1)\<lparr>p_atqa := hex_bytes bufferATQA\<rparr>\<rparr>)
         else (False, s1))"

definition mfrc522_PICC_IsNewCardPresent :: "Reader \<Rightarrow> RFID2 \<Rightarrow> bool \<times> RFID2" where
  "mfrc522_PICC_IsNewCardPresent rd s =
     (resp_IsNewCardPresent rd (calls s), log_call Call_PICC_IsNewCardPresent s)"

definition PICC_ReadCardSerial :: "Reader \<Rightarrow> RFID2 \<Rightarrow> bool \<times> RFID2" where
  "PICC_ReadCardSerial rd s =
     (fst (resp_ReadCardSerial rd (calls s)),
      log_call Call_PICC_ReadCardSerial (s\<lparr>mfrc522_uid := snd (resp_ReadCardSerial rd (calls s))\<rparr>))"

definition get_tag_type :: "Reader \<Rightarrow> RFID2 \<Rightarrow> string" where
  "get_tag_type rd s =
     (let piccType = PICC_GetType rd (uid_sak (mfrc522_uid s));
          tag_type = PICC_GetTypeName rd piccType
      in if piccType = PICC_TYPE_MIFARE_UL
         then (if totalPages s = 45 then ''NTAG213''
               else if totalPages s = 135 then ''NTAG215''
               else if totalPages s = 231 then ''NTAG216''
               else tag_type)
         else tag_type)"

text \<open>A store of \<open>vals\<close> into the first cells of the fixed-size array \<open>arr\<close>.\<close>

definition store_prefix :: "'a list \<Rightarrow> 'a list \<Rightarrow> 'a list" where
  "store_prefix vals arr = take (length arr) vals @ drop (length vals) arr"

definition set_uid :: "RFID2 \<Rightarrow> RFID2" where
  "set_uid s =
     s\<lparr>uid := \<lparr>uid_size = uid_size (mfrc522_uid s),
                uidByte = store_prefix (take (unat (uid_size (mfrc522_uid s))) (uidByte (mfrc522_uid s)))
                            (uidByte (uid s)),
                uid_sak = uid_sak (mfrc522_uid s)\<rparr>\<rparr>"

definition hex_byte2 :: "byte \<Rightarrow> string" where
  "hex_byte2 b = toUpperCase ((if b < 0x10 then ''0'' else '''') @ String_HEX b)"

definition format_data :: "Reader \<Rightarrow> RFID2 \<Rightarrow> RFID2" where
  "format_data rd s =
     (let u = mfrc522_uid s;
          bytes = take (unat (uid_size u)) (uidByte u);
          bcc = foldl (\<lambda>acc b. xor acc b) 0 bytes;
          atqa = p_atqa (printableUID s);
          atqaPart1 = substring 0 2 atqa;
          atqaPart2 = substring 3 5 atqa
      in s\<lparr>printableUID :=
             \<lparr>p_uid = hex_bytes bytes,
              p_bcc = hex_byte2 bcc,
              p_sak = hex_byte2 (uid_sak u),
              p_atqa = atqaPart2 @ '' '' @ atqaPart1,
              p_picc_type = get_tag_type rd s\<rparr>\<rparr>)"

definition read :: "Reader \<Rightarrow> RFID2 \<Rightarrow> (return_code \<times> RFID2) option" where
  "read rd s =
     (let s0 = s\<lparr>pageReadStatus := FAILURE\<rparr>;
          (present, s1) = RFID2_PICC_IsNewCardPresent rd s0
      in if \<not> present then Some (TAG_NOT_PRESENT, s1)
         else let (serial, s2) = PICC_ReadCardSerial rd s1
              in if \<not> serial then Some (TAG_NOT_PRESENT, s2)
                 else (case read_data_blocks rd s2 of
                         None \<Rightarrow> None
                       | Some (status, s3) \<Rightarrow>
                           let s4 = s3\<lparr>pageReadStatus := status, pageReadSuccess := (status = SUCCESS)\<rparr>
                           in Some (SUCCESS, set_uid (format_data rd s4))))"

section \<open>The dump file: save and load\<close>

text \<open>\<open>println\<close> of the file object ends the line with carriage return and line feed;
  \<open>print\<close> writes the text as it is.\<close>

definition println :: "string \<Rightarrow> string" where
  "println line = line @ [CHR 0x0D, CHR 0x0A]"

text \<open>The text \<open>save\<close> writes into the opened file.\<close>

definition save_text :: "RFID2 \<Rightarrow> string" where
  "save_text s =
     println ''Filetype: Bruce RFID File'' @
     println ''Version 1'' @
     println (''Device type: '' @ p_picc_type (printableUID s)) @
     println ''# UID, ATQA and SAK are common for all formats'' @
     println (''UID: '' @ p_uid (printableUID s)) @
     println (''SAK: '' @ p_sak (printableUID s)) @
     println (''ATQA: '' @ p_atqa (printableUID s)) @
     println ''# Memory dump'' @
     println (''Pages total: '' @ String_int (dataPages s)) @
     (if \<not> pageReadSuccess s then println (''Pages read: '' @ String_int (dataPages s)) else []) @
     strAllPages s"


text \<open>The loop \<open>while (file.available()) line = file.readStringUntil('\n')\<close>: the lines of
  the text, without their line feeds; a last line without line feed counts when it is not
  empty. \<open>cur\<close> holds the characters of the current line, last one first.\<close>

fun split_lines :: "string \<Rightarrow> string \<Rightarrow> string list" where
  "split_lines cur [] = (if cur = [] then [] else [rev cur])"
| "split_lines cur (c # cs) =
     (if c = CHR 0x0A then rev cur # split_lines [] cs else split_lines (c # cur) cs)"

definition load_line :: "RFID2 \<Rightarrow> string \<Rightarrow> RFID2" where
  "load_line s line =
     (let strData = trim (substring_from (unsigned_arg (indexOf (CHR '':'') line + 1)) line);
          s1 = (if startsWith ''Device type:'' line
                then s\<lparr>printableUID := (printableUID s)\<lparr>p_picc_type := strData\<rparr>\<rparr> else s);
          s2 = (if startsWith ''UID:'' line
                then s1\<lparr>printableUID := (printableUID s1)\<lparr>p_uid := strData\<rparr>\<rparr> else s1);
          s3 = (if startsWith ''SAK:'' line
                then s2\<lparr>printableUID := (printableUID s2)\<lparr>p_sak := strData\<rparr>\<rparr> else s2);
          s4 = (if startsWith ''ATQA:'' line
                then s3\<lparr>printableUID := (printableUID s3)\<lparr>p_atqa := strData\<rparr>\<rparr> else s3);
          s5 = (if startsWith ''Pages total:'' line then s4\<lparr>dataPages := toInt strData\<rparr> else s4);
          s6 = (if startsWith ''Pages read:'' line then s5\<lparr>pageReadSuccess := False\<rparr> else s5)
      in if startsWith ''Page '' line
         then s6\<lparr>strAllPages := strAllPages s6 @ line @ [CHR 0x0A]\<rparr> else s6)"

definition parse_data :: "RFID2 \<Rightarrow> RFID2" where
  "parse_data s =
     (let strUID = remove_spaces (trim (p_uid (printableUID s)));
          sak = trim (p_sak (printableUID s))
      in s\<lparr>uid := \<lparr>uid_size = of_nat (length strUID div 2),
                   uidByte = store_prefix (hex_buffer strUID) (uidByte (uid s)),
                   uid_sak = strtoul16 sak\<rparr>,
           printableUID := (printableUID s)\<lparr>p_sak := sak\<rparr>\<rparr>)"

text \<open>What \<open>load\<close> does with the text of the file once it is open.\<close>

definition load_text :: "string \<Rightarrow> RFID2 \<Rightarrow> RFID2" where
  "load_text text s =
     parse_data (foldl load_line (s\<lparr>strAllPages := [], pageReadSuccess := True\<rparr>) (split_lines [] text))"

definition load :: "bool \<Rightarrow> string option \<Rightarrow> RFID2 \<Rightarrow> return_code \<times> RFID2" where
  "load storage_available file s =
     (if \<not> storage_available then (FAILURE, s)
      else case file of None \<Rightarrow> (FAILURE, s) | Some text \<Rightarrow> (SUCCESS, load_text text s))"

section \<open>Writing, erasing and cloning\<close>

















section \<open>Notions used to state the properties\<close>

text \<open>The authentication attempts the dictionary prescribes for a trailer block, each row
  as Key A and then as Key B, and the status the controller gives the \<open>j\<close>-th of them
  when the ones before it have been made.\<close>

definition auth_call :: "PICC_Command \<times> byte \<times> byte list \<Rightarrow> pcd_call" where
  "auth_call a = (case a of (cmd, blockAddr, key) \<Rightarrow> Call_PCD_Authenticate cmd blockAddr key)"

definition attempts_of :: "byte \<Rightarrow> byte list list \<Rightarrow> (PICC_Command \<times> byte \<times> byte list) list" where
  "attempts_of tb rows = concat (map (\<lambda>row. [(PICC_CMD_MF_AUTH_KEY_A, tb, row), (PICC_CMD_MF_AUTH_KEY_B, tb, row)]) rows)"

definition attempt_status :: "Reader \<Rightarrow> RFID2 \<Rightarrow> (PICC_Command \<times> byte \<times> byte list) list \<Rightarrow> nat \<Rightarrow> StatusCode" where
  "attempt_status rd s as j =
     (case as ! j of (cmd, blockAddr, key) \<Rightarrow>
        resp_Authenticate rd (calls s @ map auth_call (take j as)) cmd blockAddr key (mfrc522_uid s))"

definition block_in_sector :: "byte \<Rightarrow> byte \<Rightarrow> bool" where
  "block_in_sector block sector =
     (case sector_layout sector of
        None \<Rightarrow> False
      | Some (no_of_blocks, firstBlock) \<Rightarrow>
          unat firstBlock \<le> unat block \<and> unat block < unat firstBlock + unat no_of_blocks)"

definition sector_trailer :: "byte \<Rightarrow> byte" where
  "sector_trailer sector =
     (case sector_layout sector of
        None \<Rightarrow> 0
      | Some (no_of_blocks, firstBlock) \<Rightarrow> firstBlock + no_of_blocks - 1)"

definition tag_uid :: Uid where
  "tag_uid = \<lparr>uid_size = 4, uidByte = [0xDE, 0xAD, 0xBE, 0xEF, 0, 0, 0, 0, 0, 0], uid_sak = 0x08\<rparr>"

definition empty_uid :: Uid where
  "empty_uid = \<lparr>uid_size = 0, uidByte = replicate 10 0, uid_sak = 0\<rparr>"

definition new_session :: RFID2 where
  "new_session =
     \<lparr>mfrc522_uid = empty_uid, uid = empty_uid,
      printableUID = \<lparr>p_uid = [], p_bcc = [], p_sak = [], p_atqa = [], p_picc_type = []\<rparr>,
      ndefMessage = \<lparr>ndef_begin = 0x03, messageSize = 5, ndef_header = 0xD1, tnf = 0x01,
                     payloadSize = 1, payloadType = 0x55, payload = (\<lambda>i. 0), ndef_end = 0xFE\<rparr>,
      totalPages = 0, dataPages = 0, pageReadSuccess = False, pageReadStatus = FAILURE,
      strAllPages = [], calls = []\<rparr>"

definition library_GetType :: "byte \<Rightarrow> PICC_Type" where
  "library_GetType sak =
     (if sak = 0x09 then PICC_TYPE_MIFARE_MINI else if sak = 0x08 then PICC_TYPE_MIFARE_1K
      else if sak = 0x18 then PICC_TYPE_MIFARE_4K else if sak = 0x00 then PICC_TYPE_MIFARE_UL
      else PICC_TYPE_OTHER sak)"

definition friendly_reader :: "byte \<Rightarrow> Reader" where
  "friendly_reader sak =
     \<lparr>PICC_GetType = library_GetType,
      PICC_GetTypeName = (\<lambda>t. ''TAG''),
      resp_RequestA = (\<lambda>log. (STATUS_OK, [0x04, 0x00])),
      resp_IsNewCardPresent = (\<lambda>log. True),
      resp_ReadCardSerial = (\<lambda>log. (True, tag_uid\<lparr>uid_sak := sak\<rparr>)),
      resp_Authenticate = (\<lambda>log cmd blockAddr key u. STATUS_OK),
      resp_Read = (\<lambda>log blockAddr. (STATUS_OK, (\<lambda>i. 0))),
      resp_Write = (\<lambda>log blockAddr buffer n. STATUS_OK),
      resp_Ultralight_Write = (\<lambda>log page buffer n. STATUS_OK),
      resp_SetUid = (\<lambda>log newUid n. True)\<rparr>"

definition line_count :: "string \<Rightarrow> nat" where
  "line_count str = length (filter (\<lambda>c. c = CHR 0x0A) str)"

definition read_addresses :: "pcd_call list \<Rightarrow> byte list" where
  "read_addresses cs = concat (map (\<lambda>c. case c of Call_MIFARE_Read a \<Rightarrow> [a] | _ \<Rightarrow> []) cs)"

definition block_reads :: "byte \<Rightarrow> nat list \<Rightarrow> pcd_call list" where
  "block_reads firstBlock offs = map (\<lambda>blockOffset. Call_MIFARE_Read (firstBlock + of_nat blockOffset)) offs"

definition read_status :: "Reader \<Rightarrow> RFID2 \<Rightarrow> byte \<Rightarrow> nat list \<Rightarrow> nat \<Rightarrow> StatusCode" where
  "read_status rd s firstBlock offs j =
     fst (resp_Read rd (calls s @ block_reads firstBlock (take j offs)) (firstBlock + of_nat (offs ! j)))"

definition sector_block_addresses :: "nat \<Rightarrow> byte list" where
  "sector_block_addresses i = map (\<lambda>blockOffset. of_nat i * 4 + of_nat blockOffset) [0..<4]"


definition ultralight_reads :: "nat \<Rightarrow> pcd_call list" where
  "ultralight_reads n = map (\<lambda>i. Call_MIFARE_Read (of_nat (4 * i))) [0..<n]"

definition burst_status :: "Reader \<Rightarrow> RFID2 \<Rightarrow> nat \<Rightarrow> StatusCode" where
  "burst_status rd s i = fst (resp_Read rd (calls s @ ultralight_reads i) (of_nat (4 * i)))"

definition capability_pages :: "byte \<Rightarrow> int \<Rightarrow> int" where
  "capability_pages cc other =
     (if cc = 0x12 then 45 else if cc = 0x3E then 135 else if cc = 0x6D then 231 else other)"

definition ultralight_tag :: "nat \<Rightarrow> byte \<Rightarrow> Reader" where
  "ultralight_tag n cc =
     (friendly_reader 0x00)\<lparr>resp_Read := (\<lambda>log page.
        (if unat page < n then STATUS_OK else STATUS_MIFARE_NACK, (\<lambda>i. if i = 14 then cc else 0)))\<rparr>"




definition presented_sak :: "Reader \<Rightarrow> RFID2 \<Rightarrow> byte" where
  "presented_sak rd s = uid_sak (snd (resp_ReadCardSerial rd (calls s @ [Call_PICC_IsNewCardPresent])))"


text \<open>The state in which the four operations start their work on a selected tag.\<close>

definition after_selection :: "Reader \<Rightarrow> RFID2 \<Rightarrow> RFID2" where
  "after_selection rd s = snd (PICC_ReadCardSerial rd (log_call Call_PICC_IsNewCardPresent s))"

text \<open>A string with no white space at either end.\<close>

definition trimmed :: "string \<Rightarrow> bool" where
  "trimmed s = (s = [] \<or> (\<not> isspace (hd s) \<and> \<not> isspace (last s)))"

text \<open>A header string that survives the file: no line feed inside, no white space at
  either end.\<close>

definition clean :: "string \<Rightarrow> bool" where
  "clean f = (trimmed f \<and> CHR 0x0A \<notin> set f)"

text \<open>The page text as a list of lines, each starting with \<open>Page\<close> and a blank.\<close>

definition page_text :: "string list \<Rightarrow> string" where
  "page_text ls = concat (map (\<lambda>l. l @ [CHR 0x0A]) ls)"

definition page_lines :: "string list \<Rightarrow> bool" where
  "page_lines ls = (\<forall>l \<in> set ls. startsWith ''Page '' l \<and> CHR 0x0A \<notin> set l)"


definition sample_dump :: RFID2 where
  "sample_dump =
     new_session\<lparr>printableUID := \<lparr>p_uid = ''DE AD BE EF'', p_bcc = ''22'', p_sak = ''08'',
                                  p_atqa = ''00 04'', p_picc_type = ''MIFARE 1KB''\<rparr>,
                 uid := tag_uid, totalPages := 64, dataPages := 2, pageReadSuccess := False,
                 strAllPages := page_text [''Page 0: DE AD BE EF 22 08 04 00 62 63 64 65 66 67 68 69'',
                                           ''Page 1: 00 00 00 00 00 00 00 00 00 00 00 00 00 00 00 00'']\<rparr>"

(*DEFS-END*)

section \<open>Sector authentication\<close>

lemma row_copy: "length row = 6 \<Longrightarrow> map (\<lambda>k. row ! k) [0..<6] = row"
  by (metis map_nth)

lemma length_attempts_of: "length (attempts_of tb rows) = 2 * length rows"
  by (induction rows) (simp_all add: attempts_of_def)

lemma attempts_of_Cons: "attempts_of tb (row # rows) = (PICC_CMD_MF_AUTH_KEY_A, tb, row) # (PICC_CMD_MF_AUTH_KEY_B, tb, row) # attempts_of tb rows"
  by (simp add: attempts_of_def)

lemma attempt_status_shift:
  assumes "calls s2 = calls s @ [auth_call a, auth_call b]" "mfrc522_uid s2 = mfrc522_uid s"
  shows "attempt_status rd s2 as j = attempt_status rd s (a # b # as) (Suc (Suc j))"
  using assms by (simp add: attempt_status_def)

lemma authenticate_keys_trace:
  assumes "\<forall>row \<in> set rows. length row = 6"
    and "authenticate_keys rd tb rows s = (r, s')"
  shows "\<exists>n \<le> 2 * length rows.
           s' = s\<lparr>calls := calls s @ map auth_call (take n (attempts_of tb rows))\<rparr> \<and>
           (\<forall>j < n - 1. attempt_status rd s (attempts_of tb rows) j \<noteq> STATUS_OK) \<and>
           (if r = SUCCESS then 0 < n \<and> attempt_status rd s (attempts_of tb rows) (n - 1) = STATUS_OK
            else r = TAG_AUTH_ERROR \<and> n = 2 * length rows \<and>
                 (\<forall>j < n. attempt_status rd s (attempts_of tb rows) j \<noteq> STATUS_OK))"
  using assms
proof (induction rows arbitrary: s)
  case Nil
  then show ?case by (auto simp: attempts_of_def)
next
  case (Cons row rows)
  let ?A = "(PICC_CMD_MF_AUTH_KEY_A, tb, row)" and ?B = "(PICC_CMD_MF_AUTH_KEY_B, tb, row)"
  let ?as = "attempts_of tb (row # rows)"
  have len: "length row = 6" using Cons.prems(1) by simp
  have as: "?as = ?A # ?B # attempts_of tb rows" by (rule attempts_of_Cons)
  let ?s1 = "log_call (auth_call ?A) s"
  let ?s2 = "log_call (auth_call ?B) ?s1"
  have st0: "attempt_status rd s ?as 0 = resp_Authenticate rd (calls s) PICC_CMD_MF_AUTH_KEY_A tb row (mfrc522_uid s)"
    by (simp add: attempt_status_def as)
  have st1: "attempt_status rd s ?as (Suc 0) = resp_Authenticate rd (calls ?s1) PICC_CMD_MF_AUTH_KEY_B tb row (mfrc522_uid ?s1)"
    by (simp add: attempt_status_def as log_call_def)
  show ?case
  proof (cases "attempt_status rd s ?as 0 = STATUS_OK")
    case True
    then have "r = SUCCESS" "s' = ?s1"
      using Cons.prems(2) len by (auto simp: st0 row_copy PCD_Authenticate_def auth_call_def Let_def)
    then show ?thesis using True
      by (intro exI[of _ 1]) (simp add: as log_call_def)
  next
    case F0: False
    show ?thesis
    proof (cases "attempt_status rd s ?as (Suc 0) = STATUS_OK")
      case True
      then have "r = SUCCESS" "s' = ?s2"
        using Cons.prems(2) len F0
        by (auto simp: st0 st1 row_copy PCD_Authenticate_def auth_call_def Let_def split: prod.splits)
      then show ?thesis using True F0
        by (intro exI[of _ 2]) (simp add: as log_call_def)
    next
      case F1: False
      then have rec: "authenticate_keys rd tb rows ?s2 = (r, s')"
        using Cons.prems(2) len F0
        by (auto simp: st0 st1 row_copy PCD_Authenticate_def auth_call_def Let_def split: prod.splits)
      have rows: "\<forall>row \<in> set rows. length row = 6" using Cons.prems(1) by simp
      from Cons.IH[OF rows rec] obtain n where n:
        "n \<le> 2 * length rows"
        "s' = ?s2\<lparr>calls := calls ?s2 @ map auth_call (take n (attempts_of tb rows))\<rparr>"
        "\<forall>j < n - 1. attempt_status rd ?s2 (attempts_of tb rows) j \<noteq> STATUS_OK"
        "if r = SUCCESS then 0 < n \<and> attempt_status rd ?s2 (attempts_of tb rows) (n - 1) = STATUS_OK
            else r = TAG_AUTH_ERROR \<and> n = 2 * length rows \<and>
                 (\<forall>j < n. attempt_status rd ?s2 (attempts_of tb rows) j \<noteq> STATUS_OK)"
        by blast
      have shift: "attempt_status rd ?s2 (attempts_of tb rows) j = attempt_status rd s ?as (Suc (Suc j))" for j
        unfolding as by (rule attempt_status_shift) (simp_all add: log_call_def)
      have low: "attempt_status rd s ?as j \<noteq> STATUS_OK" if "j < 2" for j
      proof -
        from that have "j = 0 \<or> j = Suc 0" by arith
        then show ?thesis using F0 F1 by blast
      qed
      have all: "attempt_status rd s ?as j \<noteq> STATUS_OK" if "j < Suc (Suc m)" 
        and "\<forall>i < m. attempt_status rd ?s2 (attempts_of tb rows) i \<noteq> STATUS_OK" for j m
      proof (cases "j < 2")
        case True then show ?thesis by (rule low)
      next
        case False
        then have j: "j = Suc (Suc (j - 2))" "j - 2 < m" using that(1) by arith+
        have "attempt_status rd ?s2 (attempts_of tb rows) (j - 2) \<noteq> STATUS_OK"
          using that(2) j(2) by blast
        then show ?thesis using shift[of "j - 2"] j(1) by metis
      qed
      show ?thesis
      proof (intro exI[of _ "Suc (Suc n)"] conjI)
        show "Suc (Suc n) \<le> 2 * length (row # rows)" using n(1) by simp
        show "s' = s\<lparr>calls := calls s @ map auth_call (take (Suc (Suc n)) ?as)\<rparr>"
          using n(2) by (simp add: as log_call_def)
        show "\<forall>j < Suc (Suc n) - 1. attempt_status rd s ?as j \<noteq> STATUS_OK"
        proof (intro allI impI)
          fix j assume "j < Suc (Suc n) - 1"
          then have "j < Suc (Suc (n - 1)) \<or> (n = 0 \<and> j < 2)" by auto
          then show "attempt_status rd s ?as j \<noteq> STATUS_OK"
            using all[of j "n - 1"] n(3) low by auto
        qed
        show "if r = SUCCESS then 0 < Suc (Suc n) \<and> attempt_status rd s ?as (Suc (Suc n) - 1) = STATUS_OK
            else r = TAG_AUTH_ERROR \<and> Suc (Suc n) = 2 * length (row # rows) \<and>
                 (\<forall>j < Suc (Suc n). attempt_status rd s ?as j \<noteq> STATUS_OK)"
        proof (cases "r = SUCCESS")
          case True
          then have "0 < n" "attempt_status rd ?s2 (attempts_of tb rows) (n - 1) = STATUS_OK"
            using n(4) by auto
          then have "attempt_status rd s ?as (Suc (Suc (n - 1))) = STATUS_OK" using shift by simp
          then show ?thesis using True \<open>0 < n\<close> by simp
        next
          case False
          then have "r = TAG_AUTH_ERROR" "n = 2 * length rows"
            "\<forall>j < n. attempt_status rd ?s2 (attempts_of tb rows) j \<noteq> STATUS_OK"
            using n(4) by auto
          then show ?thesis using False all[of _ n] by auto
        qed
      qed
    qed
  qed
qed

lemma length_dict_keys: "length dict_keys = 80"
  by (simp add: dict_keys_def)

lemma dict_keys_rows: "\<forall>row \<in> set dict_keys. length row = 6"
  by (simp add: dict_keys_def)

lemma trailer_of_4_block_sector:
  assumes "block < 128" "block_in_sector block sector"
  shows "block div 4 * 4 + 3 = sector_trailer sector"
proof -
  have b: "unat block < 128" using assms(1) by (simp add: word_less_nat_alt)
  show ?thesis
  proof (cases "sector < 32")
    case True
    then have s32: "unat sector < 32" by (simp add: word_less_nat_alt)
    then have u: "unat (sector * 4) = unat sector * 4" by (simp add: unat_word_ariths)
    have "unat sector * 4 \<le> unat block" "unat block < unat sector * 4 + 4"
      using assms(2) True u by (simp_all add: block_in_sector_def sector_layout_def)
    then have "unat block div 4 = unat sector" by arith
    then have "unat (block div 4) = unat sector" by (simp add: unat_div)
    then have "block div 4 = sector" by (simp add: word_unat_eq_iff)
    then show ?thesis using True by (simp add: sector_trailer_def sector_layout_def)
  next
    case False
    show ?thesis
    proof (cases "sector < 40")
      case True
      have ge: "32 \<le> unat sector" using False by (simp add: word_less_nat_alt not_less)
      have lt: "unat sector < 40" using True by (simp add: word_less_nat_alt)
      have "unat (sector - 32) = unat sector - 32" using ge
        by (simp add: unat_sub word_le_nat_alt)
      then have "unat (128 + (sector - 32) * 16) = 128 + (unat sector - 32) * 16"
        unfolding unat_word_ariths using ge lt by simp
      then show ?thesis using assms(2) False True b
        by (simp add: block_in_sector_def sector_layout_def)
    next
      case F: False
      then show ?thesis using assms(2) False by (simp add: block_in_sector_def sector_layout_def)
    qed
  qed
qed

text \<open>
  Claim C1 (as amended). \<open>authenticate_mifare_classic\<close> makes a non-empty initial segment
  of the 160 attempts that the 80 rows of \<open>dict_keys\<close> prescribe, in table order, each row
  as Key A and then as Key B, all against block \<open>block div 4 * 4 + 3\<close>. Every attempt but
  the last one made was rejected; the result is SUCCESS exactly when the last attempt made was
  accepted and TAG_AUTH_ERROR exactly when all 160 attempts were made and rejected. For a
  block below 128 the block addressed is the trailer (last block) of the sector that holds
  the block in the layout of \<open>read_mifare_classic_data_sector\<close>.
\<close>

theorem authenticate_mifare_classic_attempts:
  assumes "authenticate_mifare_classic rd block s = (r, s')"
  shows "\<exists>n. 0 < n \<and> n \<le> 160 \<and> length (attempts_of (block div 4 * 4 + 3) dict_keys) = 160 \<and>
           s' = s\<lparr>calls := calls s @ map auth_call (take n (attempts_of (block div 4 * 4 + 3) dict_keys))\<rparr> \<and>
           (\<forall>j < n - 1. attempt_status rd s (attempts_of (block div 4 * 4 + 3) dict_keys) j \<noteq> STATUS_OK) \<and>
           (r = SUCCESS \<longleftrightarrow> attempt_status rd s (attempts_of (block div 4 * 4 + 3) dict_keys) (n - 1) = STATUS_OK) \<and>
           (r = TAG_AUTH_ERROR \<longleftrightarrow>
              n = 160 \<and> (\<forall>j < 160. attempt_status rd s (attempts_of (block div 4 * 4 + 3) dict_keys) j \<noteq> STATUS_OK)) \<and>
           (r = SUCCESS \<or> r = TAG_AUTH_ERROR) \<and>
           (\<forall>sector. block < 128 \<and> block_in_sector block sector \<longrightarrow>
              block div 4 * 4 + 3 = sector_trailer sector)"
proof -
  let ?as = "attempts_of (block div 4 * 4 + 3) dict_keys"
  have run: "authenticate_keys rd (block div 4 * 4 + 3) dict_keys s = (r, s')"
    using assms by (simp add: authenticate_mifare_classic_def)
  from authenticate_keys_trace[OF dict_keys_rows run] obtain n where n:
    "n \<le> 2 * length dict_keys"
    "s' = s\<lparr>calls := calls s @ map auth_call (take n ?as)\<rparr>"
    "\<forall>j < n - 1. attempt_status rd s ?as j \<noteq> STATUS_OK"
    "if r = SUCCESS then 0 < n \<and> attempt_status rd s ?as (n - 1) = STATUS_OK
     else r = TAG_AUTH_ERROR \<and> n = 2 * length dict_keys \<and>
          (\<forall>j < n. attempt_status rd s ?as j \<noteq> STATUS_OK)"
    by blast
  have len: "length ?as = 160" by (simp add: length_attempts_of length_dict_keys)
  show ?thesis
  proof (cases "r = SUCCESS")
    case True
    then have "0 < n" "attempt_status rd s ?as (n - 1) = STATUS_OK" using n(4) by auto
    moreover have "n - 1 < 160" using n(1) \<open>0 < n\<close> by (simp add: length_dict_keys)
    ultimately show ?thesis using True n(1,2,3) len trailer_of_4_block_sector
      by (intro exI[of _ n]) (auto simp: length_dict_keys)
  next
    case False
    then have e: "r = TAG_AUTH_ERROR" "n = 160" "\<forall>j < 160. attempt_status rd s ?as j \<noteq> STATUS_OK"
      using n(4) by (auto simp: length_dict_keys)
    then show ?thesis using False n(2,3) len trailer_of_4_block_sector
      by (intro exI[of _ n]) auto
  qed
qed

theorem authenticate_mifare_classic_attempts_witness:
  "authenticate_mifare_classic (friendly_reader 0x08) 5 new_session =
     (SUCCESS, new_session\<lparr>calls := [Call_PCD_Authenticate PICC_CMD_MF_AUTH_KEY_A 7 [0xFF, 0xFF, 0xFF, 0xFF, 0xFF, 0xFF]]\<rparr>) \<and>
   (\<exists>n. 0 < n \<and> n \<le> 160 \<and>
      new_session\<lparr>calls := [Call_PCD_Authenticate PICC_CMD_MF_AUTH_KEY_A 7 [0xFF, 0xFF, 0xFF, 0xFF, 0xFF, 0xFF]]\<rparr> =
        new_session\<lparr>calls := calls new_session @ map auth_call (take n (attempts_of (5 div 4 * 4 + 3) dict_keys))\<rparr> \<and>
      attempt_status (friendly_reader 0x08) new_session (attempts_of (5 div 4 * 4 + 3) dict_keys) (n - 1) = STATUS_OK)"
proof -
  have run: "authenticate_mifare_classic (friendly_reader 0x08) 5 new_session =
     (SUCCESS, new_session\<lparr>calls := [Call_PCD_Authenticate PICC_CMD_MF_AUTH_KEY_A 7 [0xFF, 0xFF, 0xFF, 0xFF, 0xFF, 0xFF]]\<rparr>)"
    by (simp add: authenticate_mifare_classic_def dict_keys_def PCD_Authenticate_def
        friendly_reader_def log_call_def new_session_def row_copy)
  from authenticate_mifare_classic_attempts[OF run] show ?thesis using run by auto
qed

text \<open>
  Block 128 is the first block of sector 32 of a 4K tag, whose trailer is block 143; the
  attempt is made against block 131.
\<close>

theorem authenticate_4k_sector_counterexample:
  "block_in_sector 128 32 \<and> sector_trailer 32 = 143 \<and>
   calls (snd (authenticate_mifare_classic (friendly_reader 0x18) 128 new_session)) =
     [Call_PCD_Authenticate PICC_CMD_MF_AUTH_KEY_A 131 [0xFF, 0xFF, 0xFF, 0xFF, 0xFF, 0xFF]]"
  by (simp add: block_in_sector_def sector_trailer_def sector_layout_def
      authenticate_mifare_classic_def dict_keys_def PCD_Authenticate_def
      friendly_reader_def log_call_def new_session_def row_copy)

lemma set_trim: "set (trim s) \<subseteq> set s"
  by (auto simp: trim_def dest!: set_dropWhileD)

lemma less_16_cases:
  "(d::nat) < 16 \<Longrightarrow> d = 0 \<or> d = 1 \<or> d = 2 \<or> d = 3 \<or> d = 4 \<or> d = 5 \<or> d = 6 \<or> d = 7 \<or> d = 8 \<or>
     d = 9 \<or> d = 10 \<or> d = 11 \<or> d = 12 \<or> d = 13 \<or> d = 14 \<or> d = 15"
  by arith

lemma digit_char_value:
  assumes "d < 16"
  shows "digit_value (digit_char d) = Some d \<and> digit_value (toupper (digit_char d)) = Some d"
  using less_16_cases[OF assms]
  by (elim disjE) (simp_all add: digit_char_def digit_value_def toupper_def)

lemma digit_char_plain:
  assumes "d < 16"
  shows "\<not> isspace (toupper (digit_char d)) \<and> toupper (digit_char d) \<noteq> CHR '':'' \<and>
      \<not> isspace (digit_char d) \<and> digit_char d \<noteq> CHR '':'' \<and> digit_char d \<noteq> CHR ''-'' \<and> digit_char d \<noteq> CHR ''+''"
  using less_16_cases[OF assms]
  by (elim disjE) (simp_all add: digit_char_def toupper_def isspace_def char_of_eq_iff)

lemma set_String_HEX: "c \<in> set (String_HEX b) \<Longrightarrow> \<exists>d < 16. c = digit_char d"
proof -
  assume c: "c \<in> set (String_HEX b)"
  have "unat b < 256" using unsigned_less[of b, where 'a=nat] by simp
  then have hi: "unat b div 16 < 16" by arith
  have lo: "unat b mod 16 < 16" by simp
  show ?thesis
  proof (cases "unat b < 16")
    case True
    then have "c = digit_char (unat b)" using c by (simp add: String_HEX_def)
    then show ?thesis using True by blast
  next
    case False
    then have "c = digit_char (unat b div 16) \<or> c = digit_char (unat b mod 16)"
      using c by (simp add: String_HEX_def)
    then show ?thesis using hi lo by blast
  qed
qed

lemma toupper_space: "toupper (CHR '' '') = CHR '' ''"
  by (simp add: toupper_def)

lemma zero_digit: "CHR ''0'' = digit_char 0"
  by (simp add: digit_char_def)

lemma hex_bytes_chars:
  assumes "c \<in> set (hex_bytes bs)"
  shows "c = CHR '' '' \<or> (\<exists>d < 16. c = toupper (digit_char d))"
proof -
  let ?raw = "concat (map (\<lambda>b. (if b < 0x10 then '' 0'' else '' '') @ String_HEX b) bs)"
  from assms obtain x where x: "x \<in> set (trim ?raw)" and c: "c = toupper x"
    by (auto simp: hex_bytes_def toUpperCase_def)
  from x set_trim have "x \<in> set ?raw" by blast
  then obtain b where "x \<in> set ((if b < 0x10 then '' 0'' else '' '') @ String_HEX b)" by auto
  then have "x = CHR '' '' \<or> x = CHR ''0'' \<or> x \<in> set (String_HEX b)"
    by (cases "b < 0x10") auto
  then have "x = CHR '' '' \<or> (\<exists>d < 16. x = digit_char d)"
    using set_String_HEX[of x b] zero_digit by (metis zero_less_numeral)
  then show ?thesis using c toupper_space by blast
qed

lemma newline_not_in_hex_bytes: "CHR 0x0A \<notin> set (hex_bytes bs)"
proof
  assume "CHR 0x0A \<in> set (hex_bytes bs)"
  from hex_bytes_chars[OF this] obtain d where "d < 16" "CHR 0x0A = toupper (digit_char d)" by auto
  then show False using digit_char_plain[of d] by (simp add: isspace_def)
qed

lemma set_dec_nat: "c \<in> set (dec_nat n) \<Longrightarrow> \<exists>d < 10. c = digit_char d"
proof (induction n rule: dec_nat.induct)
  case (1 n)
  show ?case
  proof (cases "n < 10")
    case True
    then have "dec_nat n = [digit_char n]" by (subst dec_nat.simps) simp
    then show ?thesis using "1.prems" True by auto
  next
    case False
    then have "dec_nat n = dec_nat (n div 10) @ [digit_char (n mod 10)]" by (subst dec_nat.simps) simp
    then have "c \<in> set (dec_nat (n div 10)) \<or> c = digit_char (n mod 10)" using "1.prems" by auto
    then show ?thesis
    proof
      assume "c \<in> set (dec_nat (n div 10))"
      then show ?thesis using "1.IH"[OF False] by blast
    next
      assume "c = digit_char (n mod 10)"
      moreover have "n mod 10 < 10" by simp
      ultimately show ?thesis by blast
    qed
  qed
qed

lemma newline_not_in_String_int: "CHR 0x0A \<notin> set (String_int i)"
proof
  assume "CHR 0x0A \<in> set (String_int i)"
  then have "CHR 0x0A \<in> set (dec_nat (nat (- i))) \<or> CHR 0x0A \<in> set (dec_nat (nat i))"
    by (auto simp: String_int_def split: if_splits)
  then obtain d where "d < 10" "CHR 0x0A = digit_char d" using set_dec_nat by blast
  then show False using digit_char_plain[of d] by (simp add: isspace_def)
qed

lemma line_count_append [simp]: "line_count (a @ b) = line_count a + line_count b"
  by (simp add: line_count_def)

lemma line_count_page_line: "line_count (page_line n (hex_bytes bs)) = 1"
proof -
  have "filter (\<lambda>c. c = CHR 0x0A) (String_int n) = []" "filter (\<lambda>c. c = CHR 0x0A) (hex_bytes bs) = []"
    using newline_not_in_String_int newline_not_in_hex_bytes by (auto simp: filter_empty_conv)
  then show ?thesis by (simp add: line_count_def page_line_def)
qed

lemma read_addresses_append [simp]: "read_addresses (xs @ ys) = read_addresses xs @ read_addresses ys"
  by (simp add: read_addresses_def)

lemma read_addresses_auth [simp]: "read_addresses (map auth_call as) = []"
  by (induction as) (auto simp: read_addresses_def auth_call_def)

lemma read_addresses_block_reads [simp]:
  "read_addresses (block_reads firstBlock offs) = map (\<lambda>blockOffset. firstBlock + of_nat blockOffset) offs"
  by (induction offs) (auto simp: read_addresses_def block_reads_def)

lemma authenticate_mifare_classic_frame:
  assumes "authenticate_mifare_classic rd block s = (r, s')"
  shows "\<exists>n. 0 < n \<and> n \<le> 160 \<and>
           s' = s\<lparr>calls := calls s @ map auth_call (take n (attempts_of (block div 4 * 4 + 3) dict_keys))\<rparr>"
proof -
  have run: "authenticate_keys rd (block div 4 * 4 + 3) dict_keys s = (r, s')"
    using assms by (simp add: authenticate_mifare_classic_def)
  from authenticate_keys_trace[OF dict_keys_rows run] obtain n where n:
    "n \<le> 2 * length dict_keys"
    "s' = s\<lparr>calls := calls s @ map auth_call (take n (attempts_of (block div 4 * 4 + 3) dict_keys))\<rparr>"
    "if r = SUCCESS then 0 < n \<and> attempt_status rd s (attempts_of (block div 4 * 4 + 3) dict_keys) (n - 1) = STATUS_OK
     else r = TAG_AUTH_ERROR \<and> n = 2 * length dict_keys \<and>
          (\<forall>j < n. attempt_status rd s (attempts_of (block div 4 * 4 + 3) dict_keys) j \<noteq> STATUS_OK)"
    by blast
  have "0 < n" using n(3) by (cases "r = SUCCESS") (simp_all add: length_dict_keys)
  then show ?thesis using n(1,2) by (auto simp: length_dict_keys)
qed

lemma read_status_shift:
  assumes "calls s1 = calls s @ [Call_MIFARE_Read (firstBlock + of_nat a)]"
  shows "read_status rd s1 firstBlock offs j = read_status rd s firstBlock (a # offs) (Suc j)"
  using assms by (simp add: read_status_def block_reads_def)

lemma read_sector_blocks_trace:
  assumes "read_sector_blocks rd firstBlock offs s = (r, s')"
  shows "\<exists>m \<le> length offs.
           calls s' = calls s @ block_reads firstBlock (take m offs) \<and>
           (\<forall>j < m - 1. read_status rd s firstBlock offs j = STATUS_OK) \<and>
           (if r = SUCCESS then m = length offs \<and> (\<forall>j < m. read_status rd s firstBlock offs j = STATUS_OK)
            else r = FAILURE \<and> 0 < m \<and> read_status rd s firstBlock offs (m - 1) \<noteq> STATUS_OK) \<and>
           dataPages s' = dataPages s + int (if r = SUCCESS then m else m - 1) \<and>
           line_count (strAllPages s') = line_count (strAllPages s) + (if r = SUCCESS then m else m - 1) \<and>
           totalPages s' = totalPages s \<and> mfrc522_uid s' = mfrc522_uid s \<and> uid s' = uid s \<and>
           printableUID s' = printableUID s"
  using assms
proof (induction offs arbitrary: s)
  case Nil
  then show ?case by (auto simp: block_reads_def)
next
  case (Cons a offs)
  let ?s1 = "log_call (Call_MIFARE_Read (firstBlock + of_nat a)) s"
  have st0: "read_status rd s firstBlock (a # offs) 0 = fst (resp_Read rd (calls s) (firstBlock + of_nat a))"
    by (simp add: read_status_def block_reads_def)
  show ?case
  proof (cases "read_status rd s firstBlock (a # offs) 0 = STATUS_OK")
    case False
    then have "r = FAILURE" "s' = ?s1"
      using Cons.prems by (auto simp: st0 MIFARE_Read_def Let_def)
    then show ?thesis using False
      by (intro exI[of _ 1]) (simp add: log_call_def block_reads_def)
  next
    case True
    define s2 where "s2 = ?s1\<lparr>strAllPages := strAllPages ?s1 @ page_line (dataPages ?s1)
        (hex_bytes (map (snd (resp_Read rd (calls s) (firstBlock + of_nat a))) [0..<16])),
        dataPages := dataPages ?s1 + 1\<rparr>"
    have rec: "read_sector_blocks rd firstBlock offs s2 = (r, s')"
      using Cons.prems True by (simp add: st0 MIFARE_Read_def Let_def s2_def)
    have c2: "calls s2 = calls s @ [Call_MIFARE_Read (firstBlock + of_nat a)]"
      by (simp add: s2_def log_call_def)
    have l2: "line_count (strAllPages s2) = line_count (strAllPages s) + 1"
      by (simp add: s2_def log_call_def line_count_page_line)
    have f2: "dataPages s2 = dataPages s + 1" "totalPages s2 = totalPages s"
      "mfrc522_uid s2 = mfrc522_uid s" "uid s2 = uid s" "printableUID s2 = printableUID s"
      by (simp_all add: s2_def log_call_def)
    from Cons.IH[OF rec] obtain m where m:
      "m \<le> length offs"
      "calls s' = calls s2 @ block_reads firstBlock (take m offs)"
      "\<forall>j < m - 1. read_status rd s2 firstBlock offs j = STATUS_OK"
      "if r = SUCCESS then m = length offs \<and> (\<forall>j < m. read_status rd s2 firstBlock offs j = STATUS_OK)
            else r = FAILURE \<and> 0 < m \<and> read_status rd s2 firstBlock offs (m - 1) \<noteq> STATUS_OK"
      "dataPages s' = dataPages s2 + int (if r = SUCCESS then m else m - 1)"
      "totalPages s' = totalPages s2" "mfrc522_uid s' = mfrc522_uid s2" "uid s' = uid s2"
      "printableUID s' = printableUID s2"
      "line_count (strAllPages s') = line_count (strAllPages s2) + (if r = SUCCESS then m else m - 1)"
      by blast
    have shift: "read_status rd s2 firstBlock offs j = read_status rd s firstBlock (a # offs) (Suc j)" for j
      by (rule read_status_shift[OF c2])
    have all: "read_status rd s firstBlock (a # offs) j = STATUS_OK"
      if "j < Suc k" and "\<forall>i < k. read_status rd s2 firstBlock offs i = STATUS_OK" for j k
    proof (cases j)
      case 0 then show ?thesis using True by simp
    next
      case (Suc i)
      then have "i < k" using that(1) by simp
      then show ?thesis using that(2) shift Suc by simp
    qed
    show ?thesis
    proof (intro exI[of _ "Suc m"] conjI)
      show "Suc m \<le> length (a # offs)" using m(1) by simp
      show "calls s' = calls s @ block_reads firstBlock (take (Suc m) (a # offs))"
        using m(2) c2 by (simp add: block_reads_def)
      show "\<forall>j < Suc m - 1. read_status rd s firstBlock (a # offs) j = STATUS_OK"
      proof (intro allI impI)
        fix j assume j: "j < Suc m - 1"
        then have "j < Suc (m - 1)" by arith
        then show "read_status rd s firstBlock (a # offs) j = STATUS_OK"
          using all[of j "m - 1"] m(3) by blast
      qed
      show "if r = SUCCESS
         then Suc m = length (a # offs) \<and> (\<forall>j < Suc m. read_status rd s firstBlock (a # offs) j = STATUS_OK)
         else r = FAILURE \<and> 0 < Suc m \<and> read_status rd s firstBlock (a # offs) (Suc m - 1) \<noteq> STATUS_OK"
      proof (cases "r = SUCCESS")
        case True
        then have "m = length offs" "\<forall>j < m. read_status rd s2 firstBlock offs j = STATUS_OK"
          using m(4) by auto
        then show ?thesis using True all[of _ m] by auto
      next
        case False
        then have "r = FAILURE" "0 < m" "read_status rd s2 firstBlock offs (m - 1) \<noteq> STATUS_OK"
          using m(4) by auto
        then have "read_status rd s firstBlock (a # offs) (Suc (m - 1)) \<noteq> STATUS_OK"
          using shift by simp
        then show ?thesis using False \<open>r = FAILURE\<close> \<open>0 < m\<close> by simp
      qed
      show "dataPages s' = dataPages s + int (if r = SUCCESS then Suc m else Suc m - 1)"
      proof (cases "r = SUCCESS")
        case True then show ?thesis using m(5) f2(1) by simp
      next
        case False
        then have "0 < m" using m(4) by auto
        then show ?thesis using False m(5) f2(1) by simp
      qed
      show "line_count (strAllPages s') = line_count (strAllPages s) + (if r = SUCCESS then Suc m else Suc m - 1)"
      proof (cases "r = SUCCESS")
        case True then show ?thesis using m(10) l2 by simp
      next
        case False
        then have "0 < m" using m(4) by auto
        then show ?thesis using False m(10) l2 by simp
      qed
      show "totalPages s' = totalPages s" using m(6) f2 by simp
      show "mfrc522_uid s' = mfrc522_uid s" using m(7) f2 by simp
      show "uid s' = uid s" using m(8) f2 by simp
      show "printableUID s' = printableUID s" using m(9) f2 by simp
    qed
  qed
qed

lemma sector_layout_blocks:
  assumes "sector_layout sector = Some (no_of_blocks, firstBlock)"
  shows "0 < unat no_of_blocks"
  using assms by (auto simp: sector_layout_def split: if_splits)

lemma read_mifare_classic_data_sector_trace:
  assumes lay: "sector_layout sector = Some (no_of_blocks, firstBlock)"
    and auth: "authenticate_mifare_classic rd firstBlock s = (authStatus, s1)"
    and run: "read_mifare_classic_data_sector rd sector s = (r, s')"
  shows "(\<exists>n. 0 < n \<and> n \<le> 160 \<and>
            s1 = s\<lparr>calls := calls s @ map auth_call (take n (attempts_of (firstBlock div 4 * 4 + 3) dict_keys))\<rparr>) \<and>
         (\<exists>m. 0 < m \<and> m \<le> unat no_of_blocks \<and>
            calls s' = calls s1 @ block_reads firstBlock [0..<m] \<and>
            dataPages s' = dataPages s + int (if r = SUCCESS then m else m - 1) \<and>
            line_count (strAllPages s') = line_count (strAllPages s) + (if r = SUCCESS then m else m - 1) \<and>
            (r = SUCCESS \<longrightarrow> m = unat no_of_blocks)) \<and>
         (r = SUCCESS \<longleftrightarrow>
            (\<forall>j < unat no_of_blocks. read_status rd s1 firstBlock [0..<unat no_of_blocks] j = STATUS_OK)) \<and>
         (r = SUCCESS \<or> r = FAILURE) \<and>
         totalPages s' = totalPages s \<and> mfrc522_uid s' = mfrc522_uid s \<and> uid s' = uid s \<and>
         printableUID s' = printableUID s"
proof -
  let ?offs = "[0..<unat no_of_blocks]"
  have blocks: "read_sector_blocks rd firstBlock ?offs s1 = (r, s')"
    using run lay auth by (simp add: read_mifare_classic_data_sector_def)
  from authenticate_mifare_classic_frame[OF auth] obtain n where n:
    "0 < n" "n \<le> 160"
    "s1 = s\<lparr>calls := calls s @ map auth_call (take n (attempts_of (firstBlock div 4 * 4 + 3) dict_keys))\<rparr>"
    by blast
  from read_sector_blocks_trace[OF blocks] obtain m where m:
    "m \<le> length ?offs"
    "calls s' = calls s1 @ block_reads firstBlock (take m ?offs)"
    "if r = SUCCESS then m = length ?offs \<and> (\<forall>j < m. read_status rd s1 firstBlock ?offs j = STATUS_OK)
     else r = FAILURE \<and> 0 < m \<and> read_status rd s1 firstBlock ?offs (m - 1) \<noteq> STATUS_OK"
    "dataPages s' = dataPages s1 + int (if r = SUCCESS then m else m - 1)"
    "totalPages s' = totalPages s1" "mfrc522_uid s' = mfrc522_uid s1" "uid s' = uid s1"
    "printableUID s' = printableUID s1"
    "line_count (strAllPages s') = line_count (strAllPages s1) + (if r = SUCCESS then m else m - 1)"
    by blast
  have pos: "0 < unat no_of_blocks" by (rule sector_layout_blocks[OF lay])
  have mpos: "0 < m" using m(3) pos by (cases "r = SUCCESS") simp_all
  have tk: "take m ?offs = [0..<m]" using m(1) by (simp add: take_upt)
  have s1f: "dataPages s1 = dataPages s" "totalPages s1 = totalPages s"
    "mfrc522_uid s1 = mfrc522_uid s" "uid s1 = uid s" "printableUID s1 = printableUID s"
    "strAllPages s1 = strAllPages s"
    by (subst n(3), simp)+
  have iff: "r = SUCCESS \<longleftrightarrow>
      (\<forall>j < unat no_of_blocks. read_status rd s1 firstBlock ?offs j = STATUS_OK)"
  proof (cases "r = SUCCESS")
    case True
    then show ?thesis using m(3) by simp
  next
    case False
    then have "m - 1 < unat no_of_blocks" "read_status rd s1 firstBlock ?offs (m - 1) \<noteq> STATUS_OK"
      using m(1,3) by auto
    then show ?thesis using False by blast
  qed
  have A: "\<exists>n. 0 < n \<and> n \<le> 160 \<and>
            s1 = s\<lparr>calls := calls s @ map auth_call (take n (attempts_of (firstBlock div 4 * 4 + 3) dict_keys))\<rparr>"
    using n by blast
  have B: "\<exists>m. 0 < m \<and> m \<le> unat no_of_blocks \<and>
            calls s' = calls s1 @ block_reads firstBlock [0..<m] \<and>
            dataPages s' = dataPages s + int (if r = SUCCESS then m else m - 1) \<and>
            line_count (strAllPages s') = line_count (strAllPages s) + (if r = SUCCESS then m else m - 1) \<and>
            (r = SUCCESS \<longrightarrow> m = unat no_of_blocks)"
    using mpos m(1,2,3,4,9) tk s1f(1,6) by (intro exI[of _ m]) auto
  have C: "r = SUCCESS \<or> r = FAILURE" using m(3) by (cases "r = SUCCESS") simp_all
  have D: "totalPages s' = totalPages s" "mfrc522_uid s' = mfrc522_uid s" "uid s' = uid s"
    "printableUID s' = printableUID s"
    using m(5-8) s1f(1-5) by simp_all
  show ?thesis by (intro conjI A B iff C D)
qed

lemma read_mifare_classic_data_sector_success:
  assumes lay: "sector_layout sector = Some (no_of_blocks, firstBlock)"
    and run: "read_mifare_classic_data_sector rd sector s = (SUCCESS, s')"
  shows "dataPages s' = dataPages s + int (unat no_of_blocks) \<and>
         line_count (strAllPages s') = line_count (strAllPages s) + unat no_of_blocks \<and>
         read_addresses (calls s') =
           read_addresses (calls s) @ map (\<lambda>blockOffset. firstBlock + of_nat blockOffset) [0..<unat no_of_blocks] \<and>
         totalPages s' = totalPages s \<and> mfrc522_uid s' = mfrc522_uid s \<and> uid s' = uid s \<and>
         printableUID s' = printableUID s"
proof -
  obtain authStatus s1 where auth: "authenticate_mifare_classic rd firstBlock s = (authStatus, s1)"
    by (cases "authenticate_mifare_classic rd firstBlock s")
  from read_mifare_classic_data_sector_trace[OF lay auth run] obtain n m where
    n: "s1 = s\<lparr>calls := calls s @ map auth_call (take n (attempts_of (firstBlock div 4 * 4 + 3) dict_keys))\<rparr>"
    and m: "calls s' = calls s1 @ block_reads firstBlock [0..<m]"
      "dataPages s' = dataPages s + int m" "m = unat no_of_blocks"
      "line_count (strAllPages s') = line_count (strAllPages s) + m"
    and rest: "totalPages s' = totalPages s" "mfrc522_uid s' = mfrc522_uid s" "uid s' = uid s"
      "printableUID s' = printableUID s"
    by auto
  have "calls s1 = calls s @ map auth_call (take n (attempts_of (firstBlock div 4 * 4 + 3) dict_keys))"
    by (subst n) simp
  then have "read_addresses (calls s') =
      read_addresses (calls s) @ map (\<lambda>blockOffset. firstBlock + of_nat blockOffset) [0..<m]"
    using m(1) by simp
  then show ?thesis using m(2,3,4) rest by simp
qed

lemma read_sectors_success:
  assumes "read_sectors rd secs st s = (SUCCESS, s')" and "\<forall>i \<in> set secs. i < 32"
  shows "dataPages s' = dataPages s + 4 * int (length secs) \<and>
         line_count (strAllPages s') = line_count (strAllPages s) + 4 * length secs \<and>
         read_addresses (calls s') = read_addresses (calls s) @ concat (map sector_block_addresses secs) \<and>
         totalPages s' = totalPages s \<and> mfrc522_uid s' = mfrc522_uid s \<and> uid s' = uid s \<and>
         printableUID s' = printableUID s"
  using assms
proof (induction secs arbitrary: s st)
  case Nil
  then show ?case by simp
next
  case (Cons i secs)
  obtain status s1 where sec: "read_mifare_classic_data_sector rd (of_nat i) s = (status, s1)"
    by (cases "read_mifare_classic_data_sector rd (of_nat i) s")
  have ok: "status = SUCCESS" and rec: "read_sectors rd secs status s1 = (SUCCESS, s')"
    using Cons.prems(1) sec by (auto split: if_splits)
  have "i < 32" using Cons.prems(2) by simp
  then have "(of_nat i :: byte) < 32"
    by (simp add: word_less_nat_alt unat_of_nat)
  then have lay: "sector_layout (of_nat i) = Some (4, of_nat i * 4)"
    by (simp add: sector_layout_def)
  from read_mifare_classic_data_sector_success[OF lay sec[unfolded ok]]
  have one: "dataPages s1 = dataPages s + 4"
    "line_count (strAllPages s1) = line_count (strAllPages s) + 4"
    "read_addresses (calls s1) = read_addresses (calls s) @ sector_block_addresses i"
    "totalPages s1 = totalPages s" "mfrc522_uid s1 = mfrc522_uid s" "uid s1 = uid s"
    "printableUID s1 = printableUID s"
    by (simp_all add: sector_block_addresses_def)
  from Cons.IH[OF rec] Cons.prems(2) one show ?case by simp
qed

lemma blocks_of_16_sectors: "concat (map sector_block_addresses [0..<16]) = map of_nat [0..<64]"
  by (simp add: sector_block_addresses_def upt_rec[of _ "numeral _"] upt_rec[of _ "Suc _"])

lemma sector_layout_valid:
  assumes "i < 40"
  shows "\<exists>no_of_blocks firstBlock. sector_layout (of_nat i) = Some (no_of_blocks, firstBlock)"
proof -
  have "(of_nat i :: byte) < 40" using assms by (simp add: word_less_nat_alt unat_of_nat)
  then show ?thesis by (simp add: sector_layout_def)
qed

lemma read_sectors_all_ok:
  assumes "\<forall>log a. fst (resp_Read rd log a) = STATUS_OK" and "\<forall>i \<in> set secs. i < 40"
  shows "fst (read_sectors rd secs st s) = (if secs = [] then st else SUCCESS)"
  using assms(2)
proof (induction secs arbitrary: s st)
  case Nil
  then show ?case by simp
next
  case (Cons i secs)
  obtain r s1 where sec: "read_mifare_classic_data_sector rd (of_nat i) s = (r, s1)"
    by (cases "read_mifare_classic_data_sector rd (of_nat i) s")
  obtain no_of_blocks firstBlock where lay: "sector_layout (of_nat i) = Some (no_of_blocks, firstBlock)"
    using sector_layout_valid[of i] Cons.prems by auto
  obtain authStatus sa where auth: "authenticate_mifare_classic rd firstBlock s = (authStatus, sa)"
    by (cases "authenticate_mifare_classic rd firstBlock s")
  have "r = SUCCESS \<longleftrightarrow>
      (\<forall>j < unat no_of_blocks. read_status rd sa firstBlock [0..<unat no_of_blocks] j = STATUS_OK)"
    using read_mifare_classic_data_sector_trace[OF lay auth sec] by blast
  then have r: "r = SUCCESS" using assms(1) by (simp add: read_status_def)
  have "fst (read_sectors rd secs SUCCESS s1) = SUCCESS"
    using Cons.IH[of SUCCESS s1] Cons.prems by simp
  then show ?case using sec r by simp
qed


lemma read_mifare_classic_data_blocks_1k:
  assumes "read_mifare_classic_data_blocks rd PICC_TYPE_MIFARE_1K s = (SUCCESS, s')"
  shows "totalPages s' = 64 \<and> dataPages s' = dataPages s + 64 \<and>
         line_count (strAllPages s') = line_count (strAllPages s) + 64 \<and>
         read_addresses (calls s') = read_addresses (calls s) @ map of_nat [0..<64] \<and>
         mfrc522_uid s' = mfrc522_uid s \<and> uid s' = uid s \<and> printableUID s' = printableUID s"
proof -
  obtain st s1 where secs: "read_sectors rd [0..<16] FAILURE (s\<lparr>totalPages := 64\<rparr>) = (st, s1)"
    by (cases "read_sectors rd [0..<16] FAILURE (s\<lparr>totalPages := 64\<rparr>)")
  have st: "st = SUCCESS" and s': "s' = PCD_StopCrypto1 (PICC_HaltA s1)"
    using assms secs by (simp_all add: read_mifare_classic_data_blocks_def)
  have "\<forall>i \<in> set [0..<16]. i < (32::nat)" by simp
  from read_sectors_success[OF secs[unfolded st] this]
  have "dataPages s1 = dataPages s + 64"
    "line_count (strAllPages s1) = line_count (strAllPages s) + 64"
    "read_addresses (calls s1) = read_addresses (calls s) @ map of_nat [0..<64]"
    "totalPages s1 = 64" "mfrc522_uid s1 = mfrc522_uid s" "uid s1 = uid s"
    "printableUID s1 = printableUID s"
    by (simp_all add: blocks_of_16_sectors)
  then show ?thesis
    by (simp add: s' PCD_StopCrypto1_def PICC_HaltA_def log_call_def read_addresses_def)
qed




lemma store_ultralight_pages_frame:
  "calls (store_ultralight_pages page buffer offs s) = calls s \<and>
   dataPages (store_ultralight_pages page buffer offs s) = dataPages s + int (length offs) \<and>
   mfrc522_uid (store_ultralight_pages page buffer offs s) = mfrc522_uid s \<and>
   uid (store_ultralight_pages page buffer offs s) = uid s \<and>
   printableUID (store_ultralight_pages page buffer offs s) = printableUID s \<and>
   line_count (strAllPages (store_ultralight_pages page buffer offs s)) =
     line_count (strAllPages s) + length offs"
  by (induction offs arbitrary: s) (simp_all add: Let_def line_count_page_line)

lemma store_ultralight_pages_total_later:
  "(\<forall>offset \<in> set offs. unat page + offset \<noteq> 3) \<Longrightarrow>
   totalPages (store_ultralight_pages page buffer offs s) = totalPages s"
  by (induction offs arbitrary: s) (simp_all add: Let_def)

lemma store_ultralight_pages_total_first:
  "totalPages (store_ultralight_pages 0 buffer [0..<4] s) = capability_pages (buffer 14) (totalPages s)"
  by (simp add: upt_rec[of _ "numeral _"] upt_rec[of _ "Suc _"] Let_def capability_pages_def)

lemma unat_burst_page: "i < 64 \<Longrightarrow> unat (of_nat (4 * i) :: byte) = 4 * i"
  unfolding unat_of_nat by simp

lemma burst_page_le: "i < 64 \<Longrightarrow> (of_nat (4 * i) :: byte) \<le> 252"
  unfolding word_le_nat_alt unat_burst_page by simp

lemma ultralight_reads_Suc:
  "ultralight_reads (Suc n) = ultralight_reads n @ [Call_MIFARE_Read (of_nat (4 * n))]"
  by (simp add: ultralight_reads_def)

lemma read_ultralight_from_ends:
  assumes "i \<le> j" "j < 64"
    and "\<forall>k. i \<le> k \<and> k < j \<longrightarrow> burst_status rd s k = STATUS_OK"
    and "burst_status rd s j \<noteq> STATUS_OK"
    and "calls si = calls s @ ultralight_reads i"
  shows "\<exists>s'. read_ultralight_from rd (of_nat (4 * i)) si =
              Some (if burst_status rd s j = STATUS_MIFARE_NACK then SUCCESS else FAILURE, s') \<and>
            calls s' = calls s @ ultralight_reads (Suc j) \<and>
            dataPages s' = dataPages si + 4 * int (j - i) \<and>
            line_count (strAllPages s') = line_count (strAllPages si) + 4 * (j - i) \<and>
            totalPages s' =
              (if i = 0 \<and> 0 < j then capability_pages (snd (resp_Read rd (calls s) 0) 14) (totalPages si)
               else totalPages si) \<and>
            mfrc522_uid s' = mfrc522_uid si \<and> uid s' = uid si \<and> printableUID s' = printableUID si"
  using assms
proof (induction "j - i" arbitrary: i si)
  case 0
  then have ij: "i = j" by simp
  let ?page = "of_nat (4 * j) :: byte"
  have st: "fst (resp_Read rd (calls si) ?page) \<noteq> STATUS_OK"
    using "0.prems"(4,5) ij by (simp add: burst_status_def)
  have le: "?page \<le> 252" using "0.prems"(2) by (rule burst_page_le)
  have "read_ultralight_from rd ?page si =
      Some (if burst_status rd s j = STATUS_MIFARE_NACK then SUCCESS else FAILURE,
            log_call (Call_MIFARE_Read ?page) si)"
    using st le "0.prems"(5) ij
    by (subst read_ultralight_from.simps) (simp add: MIFARE_Read_def burst_status_def)
  then show ?case using "0.prems"(5) ij
    by (intro exI[of _ "log_call (Call_MIFARE_Read ?page) si"])
       (simp add: log_call_def ultralight_reads_Suc)
next
  case (Suc d)
  then have lt: "i < j" and i64: "i < 64" by simp_all
  let ?page = "of_nat (4 * i) :: byte"
  let ?buffer = "snd (resp_Read rd (calls si) ?page)"
  let ?s1 = "log_call (Call_MIFARE_Read ?page) si"
  let ?s2 = "store_ultralight_pages ?page ?buffer [0..<4] ?s1"
  have ok: "fst (resp_Read rd (calls si) ?page) = STATUS_OK"
    using Suc.prems(3,5) lt by (simp add: burst_status_def)
  have le: "?page \<le> 252" using i64 by (rule burst_page_le)
  have next_page: "?page + 4 = of_nat (4 * Suc i)" by simp
  have step: "read_ultralight_from rd ?page si = read_ultralight_from rd (of_nat (4 * Suc i)) ?s2"
    using ok le by (subst read_ultralight_from.simps) (simp add: MIFARE_Read_def next_page del: of_nat_mult of_nat_Suc mult_Suc_right)
  note fr = store_ultralight_pages_frame[of ?page ?buffer "[0..<4]" ?s1]
  have c2: "calls ?s2 = calls s @ ultralight_reads (Suc i)"
    using fr Suc.prems(5) by (simp add: log_call_def ultralight_reads_Suc)
  have d: "d = j - Suc i" using Suc.hyps(2) by simp
  have oks: "\<forall>k. Suc i \<le> k \<and> k < j \<longrightarrow> burst_status rd s k = STATUS_OK"
    using Suc.prems(3) by simp
  from Suc.hyps(1)[OF d _ Suc.prems(2) oks Suc.prems(4) c2] lt
  obtain s' where s':
    "read_ultralight_from rd (of_nat (4 * Suc i)) ?s2 =
       Some (if burst_status rd s j = STATUS_MIFARE_NACK then SUCCESS else FAILURE, s')"
    "calls s' = calls s @ ultralight_reads (Suc j)"
    "dataPages s' = dataPages ?s2 + 4 * int (j - Suc i)"
    "line_count (strAllPages s') = line_count (strAllPages ?s2) + 4 * (j - Suc i)"
    "totalPages s' = totalPages ?s2"
    "mfrc522_uid s' = mfrc522_uid ?s2" "uid s' = uid ?s2" "printableUID s' = printableUID ?s2"
    by auto
  have dp: "dataPages ?s2 = dataPages si + 4" using fr by (simp add: log_call_def)
  have lc: "line_count (strAllPages ?s2) = line_count (strAllPages si) + 4"
    using fr by (simp add: log_call_def)
  have tp: "totalPages ?s2 =
      (if i = 0 then capability_pages (snd (resp_Read rd (calls s) 0) 14) (totalPages si) else totalPages si)"
  proof (cases "i = 0")
    case True
    then have "calls si = calls s" using Suc.prems(5) by (simp add: ultralight_reads_def)
    then show ?thesis using True
      by (simp add: store_ultralight_pages_total_first log_call_def)
  next
    case False
    then have "\<forall>offset \<in> set [0..<4]. unat ?page + offset \<noteq> 3"
      using i64 unat_burst_page[of i] by auto
    then show ?thesis using False
      by (simp add: store_ultralight_pages_total_later log_call_def del: of_nat_mult)
  qed
  have "dataPages s' = dataPages si + 4 * int (j - i)" using s'(3) dp lt by (simp add: of_nat_diff)
  moreover have "line_count (strAllPages s') = line_count (strAllPages si) + 4 * (j - i)"
    using s'(4) lc lt by simp
  moreover have "mfrc522_uid s' = mfrc522_uid si" "uid s' = uid si" "printableUID s' = printableUID si"
    using s'(6-8) fr by (simp_all add: log_call_def)
  ultimately show ?case using s'(1,2,5) step tp lt
    by (intro exI[of _ s']) simp
qed

lemma read_data_blocks_ultralight:
  assumes ul: "PICC_GetType rd (uid_sak (mfrc522_uid s)) = PICC_TYPE_MIFARE_UL"
    and j: "j < 64"
    and oks: "\<forall>k < j. burst_status rd s k = STATUS_OK"
    and stop: "burst_status rd s j \<noteq> STATUS_OK"
  shows "\<exists>s'. read_data_blocks rd s =
              Some (if burst_status rd s j = STATUS_MIFARE_NACK then SUCCESS else FAILURE, s') \<and>
            calls s' = calls s @ ultralight_reads (Suc j) @ [Call_PICC_HaltA] \<and>
            line_count (strAllPages s') = 4 * j \<and>
            dataPages s' =
              (if burst_status rd s j = STATUS_MIFARE_NACK \<and> 0 < j then 4 * int j - 1 else 4 * int j) \<and>
            totalPages s' =
              (if 0 < j then capability_pages (snd (resp_Read rd (calls s) 0) (4 * 3 + 2)) (dataPages s')
               else dataPages s') \<and>
            mfrc522_uid s' = mfrc522_uid s \<and> uid s' = uid s \<and> printableUID s' = printableUID s"
proof -
  let ?s0 = "s\<lparr>dataPages := 0, totalPages := 0, strAllPages := []\<rparr>"
  let ?r = "if burst_status rd s j = STATUS_MIFARE_NACK then SUCCESS else FAILURE"
  have oks0: "\<forall>k. 0 \<le> k \<and> k < j \<longrightarrow> burst_status rd s k = STATUS_OK" using oks by simp
  have c0: "calls ?s0 = calls s @ ultralight_reads 0" by (simp add: ultralight_reads_def)
  from read_ultralight_from_ends[OF _ j oks0 stop c0]
  obtain s1 where s1:
    "read_ultralight_from rd 0 ?s0 = Some (?r, s1)"
    "calls s1 = calls s @ ultralight_reads (Suc j)"
    "dataPages s1 = 4 * int j"
    "line_count (strAllPages s1) = 4 * j"
    "totalPages s1 = (if 0 < j then capability_pages (snd (resp_Read rd (calls s) 0) 14) 0 else 0)"
    "mfrc522_uid s1 = mfrc522_uid s" "uid s1 = uid s" "printableUID s1 = printableUID s"
    by (auto simp: line_count_def)
  define s2 where "s2 = s1\<lparr>dataPages := (if ?r = SUCCESS \<and> dataPages s1 > 0
                                               then dataPages s1 - 1 else dataPages s1)\<rparr>"
  define s3 where "s3 = (if totalPages s2 = 0 then s2\<lparr>totalPages := dataPages s2\<rparr> else s2)"
  have run: "read_data_blocks rd s = Some (?r, PICC_HaltA s3)"
    using ul s1(1)
    by (simp add: read_data_blocks_def read_mifare_ultralight_data_blocks_def Let_def s2_def s3_def)
  have dp2: "dataPages s2 = (if burst_status rd s j = STATUS_MIFARE_NACK \<and> 0 < j then 4 * int j - 1 else 4 * int j)"
    using s1(3) by (simp add: s2_def)
  have tp2: "totalPages s2 = totalPages s1" by (simp add: s2_def)
  have dp3: "dataPages s3 = dataPages s2" by (simp add: s3_def)
  have tp3: "totalPages s3 =
      (if 0 < j then capability_pages (snd (resp_Read rd (calls s) 0) 14) (dataPages s2) else dataPages s2)"
    using tp2 s1(5) by (auto simp: s3_def capability_pages_def)
  have fr3: "calls s3 = calls s1" "strAllPages s3 = strAllPages s1" "mfrc522_uid s3 = mfrc522_uid s1"
    "uid s3 = uid s1" "printableUID s3 = printableUID s1"
    by (simp_all add: s3_def s2_def)
  show ?thesis
    using run dp2 dp3 tp3 fr3 s1(2,4,6,7,8)
    by (intro exI[of _ "PICC_HaltA s3"]) (simp add: PICC_HaltA_def log_call_def)
qed

lemma read_ultralight_from_never_returns:
  assumes ok: "\<forall>log a. fst (resp_Read rd log a) = STATUS_OK" and "4 dvd unat page"
  shows "read_ultralight_from rd page s = None"
proof -
  have "rd' = rd \<longrightarrow> 4 dvd unat page \<longrightarrow> False"
    if run: "read_ultralight_from rd' page s = Some y" for rd' page s y
  proof (rule read_ultralight_from.raw_induct[where P = "\<lambda>rd' page s y. rd' = rd \<longrightarrow> 4 dvd unat page \<longrightarrow> False", OF _ run])
    fix f :: "Reader \<Rightarrow> byte \<Rightarrow> RFID2 \<Rightarrow> (return_code \<times> RFID2) option"
    fix rd' page s y
    assume IH: "\<And>rd' page s y. f rd' page s = Some y \<Longrightarrow> rd' = rd \<longrightarrow> 4 dvd unat page \<longrightarrow> False"
    assume body: "(if \<not> page \<le> 252 then Some (SUCCESS, s)
      else let (status, buffer, s1) = MIFARE_Read rd' page s
           in if status \<noteq> STATUS_OK
              then Some (if status = STATUS_MIFARE_NACK then SUCCESS else FAILURE, s1)
              else f rd' (page + 4) (store_ultralight_pages page buffer [0..<4] s1)) = Some y"
    show "rd' = rd \<longrightarrow> 4 dvd unat page \<longrightarrow> False"
    proof (intro impI)
      assume rd': "rd' = rd" and dvd: "4 dvd unat page"
      have "unat page < 256" using unsigned_less[of page, where 'a=nat] by simp
      then have le: "unat page \<le> 252" using dvd by presburger
      then have ple: "page \<le> 252" by (simp add: word_le_nat_alt)
      have "unat (page + 4) = (unat page + unat (4 :: byte)) mod 2 ^ LENGTH(8)"
        by (rule unat_word_ariths)
      then have "unat (page + 4) = (unat page + 4) mod 256" by simp
      moreover have "4 dvd (unat page + 4) mod 256" by (rule dvd_mod) (use dvd in simp_all)
      ultimately have dvd': "4 dvd unat (page + 4)" by simp
      have "f rd (page + 4)
              (store_ultralight_pages page (snd (resp_Read rd (calls s) page)) [0..<4]
                 (log_call (Call_MIFARE_Read page) s)) = Some y"
        using body[unfolded rd'] ple ok by (simp add: MIFARE_Read_def)
      from IH[OF this] dvd' show False by simp
    qed
  qed
  then show ?thesis using assms(2) by (cases "read_ultralight_from rd page s") auto
qed

lemma burst_status_ultralight_tag:
  assumes "k < 64"
  shows "burst_status (ultralight_tag n cc) s k = (if 4 * k < n then STATUS_OK else STATUS_MIFARE_NACK)"
  using unat_burst_page[OF assms]
  by (simp add: burst_status_def ultralight_tag_def friendly_reader_def del: of_nat_mult)

text \<open>
  Claim C6 (as amended). For an Ultralight tag whose first read that is not STATUS_OK is the
  one of burst \<open>j\<close>, within the first 64 bursts (pages 0 to 252): \<open>read_data_blocks\<close>
  returns, with SUCCESS when that status is STATUS_MIFARE_NACK and FAILURE otherwise; it has
  read pages \<open>0, 4, ..., 4 * j\<close> and halted the tag; \<open>4 * j\<close> page lines have been
  captured; \<open>dataPages\<close> is \<open>4 * j\<close>, less one after a SUCCESS with at least one page;
  and \<open>totalPages\<close> is 45, 135 or 231 for the capability-container byte 0x12, 0x3E or
  0x6D (byte 2 of page 3, byte 14 of the first burst) and equal to \<open>dataPages\<close> for every
  other value.
\<close>

theorem ultralight_read_total_pages:
  assumes "PICC_GetType rd (uid_sak (mfrc522_uid s)) = PICC_TYPE_MIFARE_UL"
    and "j < 64"
    and "\<forall>k < j. burst_status rd s k = STATUS_OK"
    and "burst_status rd s j \<noteq> STATUS_OK"
  shows "\<exists>s'. read_data_blocks rd s =
              Some (if burst_status rd s j = STATUS_MIFARE_NACK then SUCCESS else FAILURE, s') \<and>
            calls s' = calls s @ ultralight_reads (Suc j) @ [Call_PICC_HaltA] \<and>
            line_count (strAllPages s') = 4 * j \<and>
            dataPages s' =
              (if burst_status rd s j = STATUS_MIFARE_NACK \<and> 0 < j then 4 * int j - 1 else 4 * int j) \<and>
            totalPages s' =
              (if 0 < j then capability_pages (snd (resp_Read rd (calls s) 0) (4 * 3 + 2)) (dataPages s')
               else dataPages s')"
  using read_data_blocks_ultralight[OF assms] by blast

text \<open>
  A tag of 45 pages with capability-container byte 0x12: 48 page lines, \<open>dataPages = 47\<close>,
  \<open>totalPages = 45\<close>.
\<close>

theorem ultralight_read_total_pages_witness:
  "\<exists>s'. read_data_blocks (ultralight_tag 45 0x12) new_session = Some (SUCCESS, s') \<and>
     line_count (strAllPages s') = 48 \<and> dataPages s' = 47 \<and> totalPages s' = 45"
proof -
  let ?rd = "ultralight_tag 45 0x12"
  have ul: "PICC_GetType ?rd (uid_sak (mfrc522_uid new_session)) = PICC_TYPE_MIFARE_UL"
    by (simp add: ultralight_tag_def friendly_reader_def new_session_def empty_uid_def library_GetType_def)
  have j: "(12::nat) < 64" by simp
  have oks: "\<forall>k < 12. burst_status ?rd new_session k = STATUS_OK"
    by (simp add: burst_status_ultralight_tag)
  have stop: "burst_status ?rd new_session 12 \<noteq> STATUS_OK"
    by (simp add: burst_status_ultralight_tag)
  have nack: "burst_status ?rd new_session 12 = STATUS_MIFARE_NACK"
    by (simp add: burst_status_ultralight_tag)
  have cc: "snd (resp_Read ?rd (calls new_session) 0) (4 * 3 + 2) = 0x12"
    by (simp add: ultralight_tag_def friendly_reader_def)
  from ultralight_read_total_pages[OF ul j oks stop] show ?thesis
    unfolding cc nack by (auto simp: capability_pages_def)
qed

text \<open>
  A tag of 16 pages with an unrecognised capability-container byte: 16 pages are captured
  before the no-acknowledge answer, and \<open>totalPages\<close> is 15.
\<close>

theorem ultralight_total_below_captured_counterexample:
  "\<exists>s'. read_data_blocks (ultralight_tag 16 0x06) new_session = Some (SUCCESS, s') \<and>
     line_count (strAllPages s') = 16 \<and> totalPages s' = 15"
proof -
  let ?rd = "ultralight_tag 16 0x06"
  have ul: "PICC_GetType ?rd (uid_sak (mfrc522_uid new_session)) = PICC_TYPE_MIFARE_UL"
    by (simp add: ultralight_tag_def friendly_reader_def new_session_def empty_uid_def library_GetType_def)
  have j: "(4::nat) < 64" by simp
  have oks: "\<forall>k < 4. burst_status ?rd new_session k = STATUS_OK"
    by (simp add: burst_status_ultralight_tag)
  have stop: "burst_status ?rd new_session 4 \<noteq> STATUS_OK"
    by (simp add: burst_status_ultralight_tag)
  have nack: "burst_status ?rd new_session 4 = STATUS_MIFARE_NACK"
    by (simp add: burst_status_ultralight_tag)
  have cc: "snd (resp_Read ?rd (calls new_session) 0) (4 * 3 + 2) = 0x06"
    by (simp add: ultralight_tag_def friendly_reader_def)
  from read_data_blocks_ultralight[OF ul j oks stop] show ?thesis
    unfolding cc nack by (auto simp: capability_pages_def)
qed

lemma RFID2_PICC_IsNewCardPresent_frame:
  assumes "RFID2_PICC_IsNewCardPresent rd s = (present, s1)"
  shows "present = (fst (resp_RequestA rd (calls s)) = STATUS_OK \<or> fst (resp_RequestA rd (calls s)) = STATUS_COLLISION) \<and>
         calls s1 = calls s @ [Call_PICC_RequestA] \<and> pageReadStatus s1 = pageReadStatus s \<and>
         pageReadSuccess s1 = pageReadSuccess s \<and> mfrc522_uid s1 = mfrc522_uid s \<and> uid s1 = uid s \<and>
         dataPages s1 = dataPages s \<and> totalPages s1 = totalPages s \<and> strAllPages s1 = strAllPages s"
  using assms
  by (auto simp: RFID2_PICC_IsNewCardPresent_def log_call_def Let_def split: prod.splits if_splits)

lemma PICC_ReadCardSerial_frame:
  assumes "PICC_ReadCardSerial rd s = (serial, s2)"
  shows "serial = fst (resp_ReadCardSerial rd (calls s)) \<and>
         mfrc522_uid s2 = snd (resp_ReadCardSerial rd (calls s)) \<and>
         calls s2 = calls s @ [Call_PICC_ReadCardSerial] \<and> pageReadStatus s2 = pageReadStatus s \<and>
         pageReadSuccess s2 = pageReadSuccess s \<and> uid s2 = uid s \<and> printableUID s2 = printableUID s \<and>
         dataPages s2 = dataPages s \<and> totalPages s2 = totalPages s \<and> strAllPages s2 = strAllPages s"
  using assms by (auto simp: PICC_ReadCardSerial_def log_call_def)

lemma format_data_frame:
  "calls (format_data rd s) = calls s \<and> pageReadStatus (format_data rd s) = pageReadStatus s \<and>
   pageReadSuccess (format_data rd s) = pageReadSuccess s \<and> mfrc522_uid (format_data rd s) = mfrc522_uid s \<and>
   uid (format_data rd s) = uid s \<and> dataPages (format_data rd s) = dataPages s \<and>
   totalPages (format_data rd s) = totalPages s \<and> strAllPages (format_data rd s) = strAllPages s"
  by (simp add: format_data_def Let_def)

lemma set_uid_frame:
  "calls (set_uid s) = calls s \<and> pageReadStatus (set_uid s) = pageReadStatus s \<and>
   pageReadSuccess (set_uid s) = pageReadSuccess s \<and> mfrc522_uid (set_uid s) = mfrc522_uid s \<and>
   printableUID (set_uid s) = printableUID s \<and> dataPages (set_uid s) = dataPages s \<and>
   totalPages (set_uid s) = totalPages s \<and> strAllPages (set_uid s) = strAllPages s \<and>
   uid_sak (uid (set_uid s)) = uid_sak (mfrc522_uid s)"
  by (simp add: set_uid_def)

text \<open>The three ways \<open>read\<close> can return.\<close>

lemma read_cases:
  assumes "read rd s = Some (r, s')"
  obtains
    (absent) s0 where "s0 = s" and "r = TAG_NOT_PRESENT"
      and "\<not> fst (RFID2_PICC_IsNewCardPresent rd (s\<lparr>pageReadStatus := FAILURE\<rparr>))"
      and "s' = snd (RFID2_PICC_IsNewCardPresent rd (s\<lparr>pageReadStatus := FAILURE\<rparr>))"
  | (no_serial) s1 where "r = TAG_NOT_PRESENT"
      and "RFID2_PICC_IsNewCardPresent rd (s\<lparr>pageReadStatus := FAILURE\<rparr>) = (True, s1)"
      and "\<not> fst (PICC_ReadCardSerial rd s1)" and "s' = snd (PICC_ReadCardSerial rd s1)"
  | (complete) s1 s2 status s3 where "r = SUCCESS"
      and "RFID2_PICC_IsNewCardPresent rd (s\<lparr>pageReadStatus := FAILURE\<rparr>) = (True, s1)"
      and "PICC_ReadCardSerial rd s1 = (True, s2)"
      and "read_data_blocks rd s2 = Some (status, s3)"
      and "s' = set_uid (format_data rd (s3\<lparr>pageReadStatus := status, pageReadSuccess := (status = SUCCESS)\<rparr>))"
proof -
  obtain present s1 where p: "RFID2_PICC_IsNewCardPresent rd (s\<lparr>pageReadStatus := FAILURE\<rparr>) = (present, s1)"
    by (cases "RFID2_PICC_IsNewCardPresent rd (s\<lparr>pageReadStatus := FAILURE\<rparr>)")
  show thesis
  proof (cases present)
    case False
    then have "r = TAG_NOT_PRESENT" "s' = s1" using assms p by (simp_all add: read_def)
    then show ?thesis using p False by (intro absent[of s]) simp_all
  next
    case True
    obtain serial s2 where q: "PICC_ReadCardSerial rd s1 = (serial, s2)"
      by (cases "PICC_ReadCardSerial rd s1")
    show ?thesis
    proof (cases serial)
      case False
      then have "r = TAG_NOT_PRESENT" "s' = s2" using assms p q True by (simp_all add: read_def)
      then show ?thesis using p q True False by (intro no_serial[of s1]) simp_all
    next
      case S: True
      show ?thesis
      proof (cases "read_data_blocks rd s2")
        case None
        then show ?thesis using assms p q True S by (simp add: read_def)
      next
        case (Some a)
        obtain status s3 where a: "a = (status, s3)" by (cases a)
        have "r = SUCCESS"
          "s' = set_uid (format_data rd (s3\<lparr>pageReadStatus := status, pageReadSuccess := (status = SUCCESS)\<rparr>))"
          using assms p q True S Some a by (simp_all add: read_def)
        then show ?thesis using p q True S Some a by (intro complete[of s1 s2 status s3]) simp_all
      qed
    qed
  qed
qed

lemma read_mifare_1k:
  assumes run: "read rd s = Some (r, s')"
    and ok: "pageReadStatus s' = SUCCESS"
    and sak: "uid_sak (snd (resp_ReadCardSerial rd (calls s @ [Call_PICC_RequestA]))) = 0x08"
    and ty: "PICC_GetType rd 0x08 = PICC_TYPE_MIFARE_1K"
  shows "r = SUCCESS \<and> totalPages s' = 64 \<and> dataPages s' = 64 \<and> pageReadSuccess s' \<and>
         line_count (strAllPages s') = 64 \<and>
         read_addresses (calls s') = read_addresses (calls s) @ map of_nat [0..<64]"
  using run
proof (cases rule: read_cases)
  case (absent s0)
  obtain p s1 where p: "RFID2_PICC_IsNewCardPresent rd (s\<lparr>pageReadStatus := FAILURE\<rparr>) = (p, s1)"
    by (cases "RFID2_PICC_IsNewCardPresent rd (s\<lparr>pageReadStatus := FAILURE\<rparr>)")
  from RFID2_PICC_IsNewCardPresent_frame[OF p] absent(4) p ok show ?thesis by simp
next
  case (no_serial s1)
  obtain q s2 where q: "PICC_ReadCardSerial rd s1 = (q, s2)" by (cases "PICC_ReadCardSerial rd s1")
  from RFID2_PICC_IsNewCardPresent_frame[OF no_serial(2)] PICC_ReadCardSerial_frame[OF q]
    no_serial(4) q ok show ?thesis by simp
next
  case (complete s1 s2 status s3)
  note f1 = RFID2_PICC_IsNewCardPresent_frame[OF complete(2)]
  note f2 = PICC_ReadCardSerial_frame[OF complete(3)]
  have st: "status = SUCCESS"
    using ok complete(5) by (simp add: set_uid_frame format_data_frame)
  have type: "PICC_GetType rd (uid_sak (mfrc522_uid s2)) = PICC_TYPE_MIFARE_1K"
    using f1 f2 sak ty by simp
  let ?s0 = "s2\<lparr>dataPages := 0, totalPages := 0, strAllPages := []\<rparr>"
  obtain sc where classic: "read_mifare_classic_data_blocks rd PICC_TYPE_MIFARE_1K ?s0 = (SUCCESS, sc)"
    and s3: "s3 = PICC_HaltA sc"
    using complete(4) type st by (auto simp: read_data_blocks_def Let_def split: prod.splits)
  from read_mifare_classic_data_blocks_1k[OF classic]
  have "totalPages sc = 64" "dataPages sc = 64" "line_count (strAllPages sc) = 64"
    "read_addresses (calls sc) = read_addresses (calls s2) @ map of_nat [0..<64]"
    by (simp_all add: line_count_def)
  moreover have "read_addresses (calls s2) = read_addresses (calls s)"
    using f1 f2 by (simp add: read_addresses_def)
  ultimately show ?thesis using complete(1,5) st s3
    by (simp add: set_uid_frame format_data_frame PICC_HaltA_def log_call_def read_addresses_def)
qed

lemma read_returns_when_blocks_return:
  assumes "RFID2_PICC_IsNewCardPresent rd (s\<lparr>pageReadStatus := FAILURE\<rparr>) = (True, s1)"
    and "PICC_ReadCardSerial rd s1 = (True, s2)"
    and "read_data_blocks rd s2 = Some (status, s3)"
  shows "read rd s =
           Some (SUCCESS, set_uid (format_data rd (s3\<lparr>pageReadStatus := status, pageReadSuccess := (status = SUCCESS)\<rparr>)))"
  using assms by (simp add: read_def)

lemma read_hangs_when_blocks_hang:
  assumes "RFID2_PICC_IsNewCardPresent rd (s\<lparr>pageReadStatus := FAILURE\<rparr>) = (True, s1)"
    and "PICC_ReadCardSerial rd s1 = (True, s2)"
    and "read_data_blocks rd s2 = None"
  shows "read rd s = None"
  using assms by (simp add: read_def)

lemma read_mifare_classic_data_blocks_all_ok:
  assumes "\<forall>log a. fst (resp_Read rd log a) = STATUS_OK"
  shows "fst (read_mifare_classic_data_blocks rd PICC_TYPE_MIFARE_1K s) = SUCCESS"
proof -
  have "fst (read_sectors rd [0..<16] FAILURE (s\<lparr>totalPages := 64\<rparr>)) = SUCCESS"
    by (subst read_sectors_all_ok[OF assms]) simp_all
  then show ?thesis
    by (auto simp: read_mifare_classic_data_blocks_def split: prod.splits)
qed

lemma read_friendly_1k:
  "\<exists>s'. read (friendly_reader 0x08) new_session = Some (SUCCESS, s') \<and> pageReadStatus s' = SUCCESS"
proof -
  let ?rd = "friendly_reader 0x08"
  let ?s1 = "snd (RFID2_PICC_IsNewCardPresent ?rd (new_session\<lparr>pageReadStatus := FAILURE\<rparr>))"
  let ?s2 = "snd (PICC_ReadCardSerial ?rd ?s1)"
  let ?s0 = "?s2\<lparr>dataPages := 0, totalPages := 0, strAllPages := []\<rparr>"
  have p: "RFID2_PICC_IsNewCardPresent ?rd (new_session\<lparr>pageReadStatus := FAILURE\<rparr>) = (True, ?s1)"
    by (simp add: RFID2_PICC_IsNewCardPresent_def friendly_reader_def Let_def)
  have q: "PICC_ReadCardSerial ?rd ?s1 = (True, ?s2)"
    by (simp add: PICC_ReadCardSerial_def friendly_reader_def)
  have ty: "PICC_GetType ?rd (uid_sak (mfrc522_uid ?s2)) = PICC_TYPE_MIFARE_1K"
    by (simp add: PICC_ReadCardSerial_def friendly_reader_def library_GetType_def log_call_def)
  obtain st sc where c: "read_mifare_classic_data_blocks ?rd PICC_TYPE_MIFARE_1K ?s0 = (st, sc)"
    by (cases "read_mifare_classic_data_blocks ?rd PICC_TYPE_MIFARE_1K ?s0")
  have "fst (read_mifare_classic_data_blocks ?rd PICC_TYPE_MIFARE_1K ?s0) = SUCCESS"
    by (rule read_mifare_classic_data_blocks_all_ok) (simp add: friendly_reader_def)
  then have st: "st = SUCCESS" using c by simp
  have rdb: "read_data_blocks ?rd ?s2 = Some (SUCCESS, PICC_HaltA sc)"
    using ty c st by (simp add: read_data_blocks_def)
  from read_returns_when_blocks_return[OF p q rdb] show ?thesis
    by (simp add: set_uid_frame format_data_frame)
qed

text \<open>
  Claim C8 (as amended). When \<open>read\<close> returns for a tag that answers the serial-number
  read with SAK 0x08, which the controller library types as MIFARE 1K, and the latched read
  status is SUCCESS, then the result is SUCCESS, \<open>totalPages\<close> is 64, the completeness
  flag is true, and all 64 blocks 0 to 63 have been read and captured, the manufacturer
  block and the 16 sector trailers included: \<open>dataPages\<close> is 64 and the dump holds 64
  page lines.
\<close>

theorem mifare_1k_full_read:
  assumes "read rd s = Some (r, s')"
    and "pageReadStatus s' = SUCCESS"
    and "uid_sak (snd (resp_ReadCardSerial rd (calls s @ [Call_PICC_RequestA]))) = 0x08"
    and "PICC_GetType rd 0x08 = PICC_TYPE_MIFARE_1K"
  shows "r = SUCCESS \<and> totalPages s' = 64 \<and> dataPages s' = 64 \<and> pageReadSuccess s' \<and>
         line_count (strAllPages s') = 64 \<and>
         read_addresses (calls s') = read_addresses (calls s) @ map of_nat [0..<64]"
  using assms by (rule read_mifare_1k)

text \<open>
  A 1K tag that accepts the first key and answers every block read.
\<close>

theorem mifare_1k_full_read_witness:
  "\<exists>s'. read (friendly_reader 0x08) new_session = Some (SUCCESS, s') \<and> pageReadStatus s' = SUCCESS \<and>
     totalPages s' = 64 \<and> dataPages s' = 64 \<and> pageReadSuccess s' \<and> line_count (strAllPages s') = 64 \<and>
     read_addresses (calls s') = map of_nat [0..<64]"
proof -
  from read_friendly_1k obtain s' where s':
    "read (friendly_reader 0x08) new_session = Some (SUCCESS, s')" "pageReadStatus s' = SUCCESS"
    by blast
  have sak: "uid_sak (snd (resp_ReadCardSerial (friendly_reader 0x08) (calls new_session @ [Call_PICC_RequestA]))) = 0x08"
    by (simp add: friendly_reader_def)
  have ty: "PICC_GetType (friendly_reader 0x08) 0x08 = PICC_TYPE_MIFARE_1K"
    by (simp add: friendly_reader_def library_GetType_def)
  have "read_addresses (calls new_session) = []" by (simp add: new_session_def read_addresses_def)
  with mifare_1k_full_read[OF s' sak ty] s' show ?thesis by auto
qed

text \<open>
  The same full read: the captured-page counter is 64, not 47.
\<close>

theorem mifare_1k_data_pages_counterexample:
  "\<exists>s'. read (friendly_reader 0x08) new_session = Some (SUCCESS, s') \<and> pageReadSuccess s' \<and>
     totalPages s' = 64 \<and> dataPages s' = 64 \<and> dataPages s' \<noteq> 47"
proof -
  from read_friendly_1k obtain s' where s':
    "read (friendly_reader 0x08) new_session = Some (SUCCESS, s')" "pageReadStatus s' = SUCCESS"
    by blast
  have sak: "uid_sak (snd (resp_ReadCardSerial (friendly_reader 0x08) (calls new_session @ [Call_PICC_RequestA]))) = 0x08"
    by (simp add: friendly_reader_def)
  have ty: "PICC_GetType (friendly_reader 0x08) 0x08 = PICC_TYPE_MIFARE_1K"
    by (simp add: friendly_reader_def library_GetType_def)
  from read_mifare_1k[OF s' sak ty] s' show ?thesis by auto
qed

text \<open>
  Claim C2, at the input where the code departs from it. The tag is detected and selected, has
  SAK 0x00 (Ultralight) and acknowledges the read of every page address. \<open>read\<close> does not
  return: the page counter of \<open>read_mifare_ultralight_data_blocks\<close> is a byte, so after
  page 252 it is 0 again and the loop condition \<open>page <= 252\<close> never fails.
\<close>

theorem read_acknowledging_ultralight_never_returns:
  "read (friendly_reader 0x00) new_session = None"
proof -
  let ?rd = "friendly_reader 0x00"
  let ?s1 = "snd (RFID2_PICC_IsNewCardPresent ?rd (new_session\<lparr>pageReadStatus := FAILURE\<rparr>))"
  let ?s2 = "snd (PICC_ReadCardSerial ?rd ?s1)"
  let ?s0 = "?s2\<lparr>dataPages := 0, totalPages := 0, strAllPages := []\<rparr>"
  have p: "RFID2_PICC_IsNewCardPresent ?rd (new_session\<lparr>pageReadStatus := FAILURE\<rparr>) = (True, ?s1)"
    by (simp add: RFID2_PICC_IsNewCardPresent_def friendly_reader_def Let_def)
  have q: "PICC_ReadCardSerial ?rd ?s1 = (True, ?s2)"
    by (simp add: PICC_ReadCardSerial_def friendly_reader_def)
  have ty: "PICC_GetType ?rd (uid_sak (mfrc522_uid ?s2)) = PICC_TYPE_MIFARE_UL"
    by (simp add: PICC_ReadCardSerial_def friendly_reader_def library_GetType_def log_call_def)
  have "read_ultralight_from ?rd 0 ?s0 = None"
    by (rule read_ultralight_from_never_returns) (simp_all add: friendly_reader_def)
  then have "read_data_blocks ?rd ?s2 = None"
    using ty by (simp add: read_data_blocks_def read_mifare_ultralight_data_blocks_def)
  then show ?thesis by (rule read_hangs_when_blocks_hang[OF p q])
qed

lemma after_selection_frame:
  "calls (after_selection rd s) = calls s @ [Call_PICC_IsNewCardPresent, Call_PICC_ReadCardSerial] \<and>
   mfrc522_uid (after_selection rd s) = snd (resp_ReadCardSerial rd (calls s @ [Call_PICC_IsNewCardPresent])) \<and>
   uid (after_selection rd s) = uid s \<and> strAllPages (after_selection rd s) = strAllPages s \<and>
   dataPages (after_selection rd s) = dataPages s \<and> ndefMessage (after_selection rd s) = ndefMessage s"
  by (simp add: after_selection_def PICC_ReadCardSerial_def mfrc522_PICC_IsNewCardPresent_def log_call_def)












lemma substring_from_drop: "substring_from k str = drop k str"
  by (simp add: substring_from_def substring_def Let_def)











lemma presented_sak_after_selection:
  "uid_sak (mfrc522_uid (after_selection rd s)) = presented_sak rd s"
  by (simp add: after_selection_frame presented_sak_def)














lemma char_eq_code: "c = d \<longleftrightarrow> (of_char c :: nat) = of_char d"
  by simp

lemma isspace_code: "isspace c \<longleftrightarrow> (of_char c :: nat) = 32 \<or> (9 \<le> (of_char c :: nat) \<and> (of_char c :: nat) \<le> 13)"
proof -
  have "isspace c \<longleftrightarrow> (of_char c :: nat) \<in> {32, 9, 10, 11, 12, 13}"
    unfolding isspace_def by (simp add: char_eq_code[of c] del: of_char_eq_iff)
  also have "\<dots> \<longleftrightarrow> (of_char c :: nat) = 32 \<or> (9 \<le> (of_char c :: nat) \<and> (of_char c :: nat) \<le> 13)"
    by auto
  finally show ?thesis .
qed

lemma of_char_toupper:
  "(of_char (toupper c) :: nat) = (if 97 \<le> (of_char c :: nat) \<and> (of_char c :: nat) \<le> 122 then of_char c - 32 else of_char c)"
proof -
  have "(of_char c :: nat) < 256" by simp
  then show ?thesis by (auto simp: toupper_def Let_def)
qed

lemma isspace_toupper [simp]: "isspace (toupper c) = isspace c"
  unfolding isspace_code of_char_toupper by auto

lemma toupper_eq_space [simp]: "toupper c = CHR '' '' \<longleftrightarrow> c = CHR '' ''"
proof -
  have "toupper c = CHR '' '' \<longleftrightarrow> (of_char (toupper c) :: nat) = 32"
    by (simp add: char_eq_code[of "toupper c"] del: of_char_eq_iff)
  also have "\<dots> \<longleftrightarrow> (of_char c :: nat) = 32" unfolding of_char_toupper by auto
  also have "\<dots> \<longleftrightarrow> c = CHR '' ''"
    by (simp add: char_eq_code[of c] del: of_char_eq_iff)
  finally show ?thesis .
qed

lemma dropWhile_isspace_toUpperCase:
  "dropWhile isspace (toUpperCase s) = toUpperCase (dropWhile isspace s)"
  by (induction s) (simp_all add: toUpperCase_def)

lemma trim_toUpperCase: "trim (toUpperCase s) = toUpperCase (trim s)"
proof -
  have r: "rev (toUpperCase s) = toUpperCase (rev s)" for s by (simp add: toUpperCase_def rev_map)
  show ?thesis unfolding trim_def dropWhile_isspace_toUpperCase r ..
qed

lemma trim_trimmed: "trimmed s \<Longrightarrow> trim s = s"
proof (cases s)
  case Nil
  then show ?thesis by (simp add: trim_def)
next
  case (Cons a s')
  assume "trimmed s"
  then have a: "\<not> isspace a" and l: "\<not> isspace (last s)" using Cons by (auto simp: trimmed_def)
  have "dropWhile isspace s = s" using a Cons by simp
  moreover have "dropWhile isspace (rev s) = rev s"
  proof (cases s rule: rev_cases)
    case Nil
    then show ?thesis by simp
  next
    case (snoc ys y)
    then show ?thesis using l by simp
  qed
  ultimately show ?thesis by (simp add: trim_def)
qed

lemma trimmed_trim: "trimmed (trim s)"
proof -
  let ?t = "dropWhile isspace s"
  let ?u = "dropWhile isspace (rev ?t)"
  show ?thesis
  proof (cases "?u = []")
    case True
    then show ?thesis by (simp add: trim_def trimmed_def)
  next
    case False
    then have hu: "\<not> isspace (hd ?u)" by (rule hd_dropWhile)
    have tne: "?t \<noteq> []" using False by (metis dropWhile.simps(1) rev_is_Nil_conv)
    then have ht: "\<not> isspace (hd ?t)" by (rule hd_dropWhile)
    have "last ?u = last (rev ?t)" using False
      by (metis dropWhile_eq_Nil_conv last_appendR takeWhile_dropWhile_id)
    then have "last ?u = hd ?t" using tne by (simp add: last_rev)
    then have "\<not> isspace (last ?u)" using ht by simp
    then have "\<not> isspace (hd (rev ?u))" using False by (simp add: hd_rev)
    moreover have "\<not> isspace (last (rev ?u))" using hu False by (simp add: last_rev)
    ultimately show ?thesis by (simp add: trim_def trimmed_def)
  qed
qed

lemma trim_idem: "trim (trim s) = trim s"
  by (rule trim_trimmed[OF trimmed_trim])

lemma dropWhile_hd_keeps: "xs \<noteq> [] \<Longrightarrow> \<not> P (hd xs) \<Longrightarrow> dropWhile P (xs @ zs) = xs @ zs"
  by (cases xs) auto

lemma trim_space_pad:
  assumes "trimmed f"
  shows "trim (CHR '' '' # f @ [CHR 0x0D]) = f" and "trim (CHR '' '' # f) = f"
proof -
  have sp: "isspace (CHR '' '')" "isspace (CHR 0x0D)" by (simp_all add: isspace_def)
  show "trim (CHR '' '' # f @ [CHR 0x0D]) = f"
  proof (cases "f = []")
    case True
    then show ?thesis using sp by (simp add: trim_def)
  next
    case False
    then have h: "\<not> isspace (hd f)" and l: "\<not> isspace (last f)" using assms by (auto simp: trimmed_def)
    have 1: "dropWhile isspace (CHR '' '' # f @ [CHR 0x0D]) = f @ [CHR 0x0D]"
      using sp(1) dropWhile_hd_keeps[of f isspace "[CHR 0x0D]"] False h by simp
    have 2: "rev (f @ [CHR 0x0D]) = CHR 0x0D # rev f" by simp
    have "rev f \<noteq> []" "\<not> isspace (hd (rev f))" using False l by (simp_all add: hd_rev)
    then have 3: "dropWhile isspace (CHR 0x0D # rev f) = rev f"
      using sp(2) dropWhile_hd_keeps[of "rev f" isspace "[]"] by simp
    show ?thesis unfolding trim_def 1 2 3 by simp
  qed
  have "trim (CHR '' '' # f) = trim f" using sp by (simp add: trim_def)
  then show "trim (CHR '' '' # f) = f" using trim_trimmed[OF assms] by simp
qed

lemma dec_nat_not_empty: "dec_nat n \<noteq> []"
  by (subst dec_nat.simps) simp

lemma digits_val_dec_nat:
  "digits_val 10 acc (dec_nat n @ rest) = digits_val 10 (acc * 10 ^ length (dec_nat n) + n) rest"
proof (induction n arbitrary: acc rest rule: dec_nat.induct)
  case (1 n)
  show ?case
  proof (cases "n < 10")
    case True
    then have d: "dec_nat n = [digit_char n]" by (subst dec_nat.simps) simp
    have "digit_value (digit_char n) = Some n" using True digit_char_value[of n] by simp
    then show ?thesis using True by (simp add: d)
  next
    case False
    then have d: "dec_nat n = dec_nat (n div 10) @ [digit_char (n mod 10)]"
      by (subst dec_nat.simps) simp
    have v: "digit_value (digit_char (n mod 10)) = Some (n mod 10)"
      using digit_char_value[of "n mod 10"] by simp
    have "digits_val 10 acc (dec_nat n @ rest) =
          digits_val 10 acc (dec_nat (n div 10) @ (digit_char (n mod 10) # rest))"
      by (simp add: d)
    also have "\<dots> = digits_val 10 (acc * 10 ^ length (dec_nat (n div 10)) + n div 10)
                        (digit_char (n mod 10) # rest)"
      by (rule "1.IH"[OF False])
    also have "\<dots> = digits_val 10 ((acc * 10 ^ length (dec_nat (n div 10)) + n div 10) * 10 + n mod 10) rest"
      by (simp add: v)
    also have "(acc * 10 ^ length (dec_nat (n div 10)) + n div 10) * 10 + n mod 10
               = acc * 10 ^ length (dec_nat n) + n"
      by (simp add: d algebra_simps)
    finally show ?thesis .
  qed
qed

lemma digits_val_dec_nat_all: "digits_val 10 0 (dec_nat n) = n"
  using digits_val_dec_nat[of 0 n "[]"] by simp

lemma dec_nat_chars:
  assumes "c \<in> set (dec_nat n)"
  shows "\<not> isspace c \<and> c \<noteq> CHR '':'' \<and> c \<noteq> CHR ''-'' \<and> c \<noteq> CHR ''+'' \<and> c \<noteq> CHR 0x0A"
proof -
  from set_dec_nat[OF assms] obtain d where "d < 10" "c = digit_char d" by blast
  then show ?thesis using digit_char_plain[of d] by (auto simp: isspace_def)
qed

lemma String_int_chars:
  assumes "c \<in> set (String_int i)"
  shows "\<not> isspace c \<and> c \<noteq> CHR '':'' \<and> c \<noteq> CHR 0x0A"
proof -
  have "c = CHR ''-'' \<or> c \<in> set (dec_nat (nat (- i))) \<or> c \<in> set (dec_nat (nat i))"
    using assms by (auto simp: String_int_def split: if_splits)
  then show ?thesis using dec_nat_chars by (auto simp: isspace_def)
qed

lemma String_int_not_empty: "String_int i \<noteq> []"
  by (simp add: String_int_def dec_nat_not_empty)

lemma trimmed_String_int: "trimmed (String_int i)"
  using String_int_chars[of _ i] String_int_not_empty[of i]
  by (simp add: trimmed_def)

lemma toInt_String_int: "toInt (String_int i) = i"
proof (cases "i < 0")
  case True
  have "\<not> isspace (CHR ''-'')" by (simp add: isspace_def)
  then have "dropWhile isspace (String_int i) = CHR ''-'' # dec_nat (nat (- i))"
    using True by (simp add: String_int_def)
  then show ?thesis using True by (simp add: toInt_def digits_val_dec_nat_all)
next
  case False
  obtain c r where cr: "dec_nat (nat i) = c # r" using dec_nat_not_empty[of "nat i"] by (cases "dec_nat (nat i)") auto
  then have c: "\<not> isspace c" "c \<noteq> CHR ''-''" "c \<noteq> CHR ''+''"
    using dec_nat_chars[of c "nat i"] by simp_all
  have "dropWhile isspace (String_int i) = c # r" using False cr c by (simp add: String_int_def)
  moreover have "digits_val 10 0 (c # r) = nat i" using digits_val_dec_nat_all[of "nat i"] cr by simp
  ultimately show ?thesis using False c by (simp add: toInt_def)
qed

lemma split_lines_line:
  "CHR 0x0A \<notin> set l \<Longrightarrow> split_lines cur (l @ CHR 0x0A # rest) = (rev cur @ l) # split_lines [] rest"
  by (induction l arbitrary: cur) auto

lemma split_lines_println:
  "CHR 0x0A \<notin> set x \<Longrightarrow> split_lines [] (println x @ rest) = (x @ [CHR 0x0D]) # split_lines [] rest"
  using split_lines_line[of "x @ [CHR 0x0D]" "[]" rest] by (simp add: println_def)

lemma split_lines_page_text:
  "\<forall>l \<in> set ls. CHR 0x0A \<notin> set l \<Longrightarrow> split_lines [] (page_text ls) = ls"
proof (induction ls)
  case Nil
  then show ?case by (simp add: page_text_def)
next
  case (Cons l ls)
  have "page_text (l # ls) = l @ CHR 0x0A # page_text ls" by (simp add: page_text_def)
  then show ?case using Cons split_lines_line[of l "[]" "page_text ls"] by simp
qed

lemma unsigned_arg_small [simp]:
  "unsigned_arg 12 = 12" "unsigned_arg 4 = 4" "unsigned_arg 5 = 5" "unsigned_arg 13 = 13"
  "unsigned_arg 0 = 0" "unsigned_arg 9 = 9"
  by (simp_all add: unsigned_arg_def)

lemma load_line_device_type:
  assumes "trimmed f"
  shows "load_line s (''Device type: '' @ f @ [CHR 0x0D]) =
           s\<lparr>printableUID := (printableUID s)\<lparr>p_picc_type := f\<rparr>\<rparr>"
  using trim_space_pad(1)[OF assms]
  by (simp add: load_line_def startsWith_def indexOf_def substring_from_drop Let_def)

lemma load_line_uid:
  assumes "trimmed f"
  shows "load_line s (''UID: '' @ f @ [CHR 0x0D]) = s\<lparr>printableUID := (printableUID s)\<lparr>p_uid := f\<rparr>\<rparr>"
  using trim_space_pad(1)[OF assms]
  by (simp add: load_line_def startsWith_def indexOf_def substring_from_drop Let_def)

lemma load_line_sak:
  assumes "trimmed f"
  shows "load_line s (''SAK: '' @ f @ [CHR 0x0D]) = s\<lparr>printableUID := (printableUID s)\<lparr>p_sak := f\<rparr>\<rparr>"
  using trim_space_pad(1)[OF assms]
  by (simp add: load_line_def startsWith_def indexOf_def substring_from_drop Let_def)

lemma load_line_atqa:
  assumes "trimmed f"
  shows "load_line s (''ATQA: '' @ f @ [CHR 0x0D]) = s\<lparr>printableUID := (printableUID s)\<lparr>p_atqa := f\<rparr>\<rparr>"
  using trim_space_pad(1)[OF assms]
  by (simp add: load_line_def startsWith_def indexOf_def substring_from_drop Let_def)

lemma load_line_pages_total:
  "load_line s (''Pages total: '' @ String_int n @ [CHR 0x0D]) = s\<lparr>dataPages := n\<rparr>"
  using trim_space_pad(1)[OF trimmed_String_int, of n]
  by (simp add: load_line_def startsWith_def indexOf_def substring_from_drop Let_def toInt_String_int)

lemma load_line_pages_read:
  "load_line s (''Pages read: '' @ x @ [CHR 0x0D]) = s\<lparr>pageReadSuccess := False\<rparr>"
  by (simp add: load_line_def startsWith_def Let_def)

lemma load_line_other:
  "load_line s (''Filetype: Bruce RFID File'' @ [CHR 0x0D]) = s"
  "load_line s (''Version 1'' @ [CHR 0x0D]) = s"
  "load_line s (''# UID, ATQA and SAK are common for all formats'' @ [CHR 0x0D]) = s"
  "load_line s (''# Memory dump'' @ [CHR 0x0D]) = s"
  by (simp_all add: load_line_def startsWith_def Let_def)

lemma load_line_page:
  assumes "startsWith ''Page '' l"
  shows "load_line s l = s\<lparr>strAllPages := strAllPages s @ l @ [CHR 0x0A]\<rparr>"
proof -
  from assms have "take (length ''Page '') l = ''Page ''" by (simp only: startsWith_def)
  then have "l = ''Page '' @ drop (length ''Page '') l" by (metis append_take_drop_id)
  then obtain r where l: "l = ''Page '' @ r" by blast
  show ?thesis unfolding l by (simp add: load_line_def startsWith_def Let_def)
qed

lemma lines_of_save_text:
  assumes "clean (p_picc_type (printableUID s))" "clean (p_uid (printableUID s))"
    "clean (p_sak (printableUID s))" "clean (p_atqa (printableUID s))"
    "\<forall>l \<in> set ls. CHR 0x0A \<notin> set l" "strAllPages s = page_text ls"
  shows "split_lines [] (save_text s) =
     [''Filetype: Bruce RFID File'' @ [CHR 0x0D],
      ''Version 1'' @ [CHR 0x0D],
      ''Device type: '' @ p_picc_type (printableUID s) @ [CHR 0x0D],
      ''# UID, ATQA and SAK are common for all formats'' @ [CHR 0x0D],
      ''UID: '' @ p_uid (printableUID s) @ [CHR 0x0D],
      ''SAK: '' @ p_sak (printableUID s) @ [CHR 0x0D],
      ''ATQA: '' @ p_atqa (printableUID s) @ [CHR 0x0D],
      ''# Memory dump'' @ [CHR 0x0D],
      ''Pages total: '' @ String_int (dataPages s) @ [CHR 0x0D]] @
     (if \<not> pageReadSuccess s then [''Pages read: '' @ String_int (dataPages s) @ [CHR 0x0D]] else []) @
     ls"
  using assms newline_not_in_String_int[of "dataPages s"]
  by (simp add: save_text_def split_lines_println split_lines_page_text clean_def)

lemma foldl_load_line_pages:
  assumes "\<forall>l \<in> set ls. startsWith ''Page '' l"
  shows "foldl load_line s ls = s\<lparr>strAllPages := strAllPages s @ page_text ls\<rparr>"
  using assms
proof (induction ls arbitrary: s)
  case Nil
  then show ?case by (simp add: page_text_def)
next
  case (Cons l ls)
  then have l: "startsWith ''Page '' l" and ls: "\<forall>l \<in> set ls. startsWith ''Page '' l" by simp_all
  show ?case
    by (simp add: load_line_page[OF l] Cons.IH[OF ls] page_text_def)
qed

lemma foldl_load_line_save_text:
  assumes "clean (p_picc_type (printableUID s))" "clean (p_uid (printableUID s))"
    "clean (p_sak (printableUID s))" "clean (p_atqa (printableUID s))"
    "page_lines ls" "strAllPages s = page_text ls"
  shows "foldl load_line (s0\<lparr>strAllPages := [], pageReadSuccess := True\<rparr>) (split_lines [] (save_text s)) =
     s0\<lparr>strAllPages := strAllPages s, pageReadSuccess := pageReadSuccess s, dataPages := dataPages s,
        printableUID := (printableUID s0)\<lparr>p_picc_type := p_picc_type (printableUID s),
          p_uid := p_uid (printableUID s), p_sak := p_sak (printableUID s),
          p_atqa := p_atqa (printableUID s)\<rparr>\<rparr>"
proof -
  have nl: "\<forall>l \<in> set ls. CHR 0x0A \<notin> set l" and pg: "\<forall>l \<in> set ls. startsWith ''Page '' l"
    using assms(5) by (simp_all add: page_lines_def)
  have t: "trimmed (p_picc_type (printableUID s))" "trimmed (p_uid (printableUID s))"
    "trimmed (p_sak (printableUID s))" "trimmed (p_atqa (printableUID s))"
    using assms(1-4) by (simp_all add: clean_def)
  show ?thesis
    unfolding lines_of_save_text[OF assms(1-4) nl assms(6)] foldl_append foldl_Cons foldl_Nil
      load_line_other load_line_device_type[OF t(1)] load_line_uid[OF t(2)] load_line_sak[OF t(3)]
      load_line_atqa[OF t(4)] load_line_pages_total
    by (cases "pageReadSuccess s")
       (simp_all add: load_line_pages_read[simplified] foldl_load_line_pages[OF pg] assms(6))
qed

lemma parse_data_frame:
  "strAllPages (parse_data s) = strAllPages s \<and> pageReadSuccess (parse_data s) = pageReadSuccess s \<and>
   dataPages (parse_data s) = dataPages s \<and> totalPages (parse_data s) = totalPages s \<and>
   p_picc_type (printableUID (parse_data s)) = p_picc_type (printableUID s) \<and>
   p_uid (printableUID (parse_data s)) = p_uid (printableUID s) \<and>
   p_sak (printableUID (parse_data s)) = trim (p_sak (printableUID s)) \<and>
   p_atqa (printableUID (parse_data s)) = p_atqa (printableUID s) \<and>
   p_bcc (printableUID (parse_data s)) = p_bcc (printableUID s) \<and>
   uid_sak (uid (parse_data s)) = strtoul16 (trim (p_sak (printableUID s)))"
  by (simp add: parse_data_def Let_def)

lemma load_line_frame:
  "totalPages (load_line s l) = totalPages s \<and> p_bcc (printableUID (load_line s l)) = p_bcc (printableUID s)"
  by (simp add: load_line_def Let_def)

lemma foldl_load_line_frame:
  "totalPages (foldl load_line s ls) = totalPages s \<and>
   p_bcc (printableUID (foldl load_line s ls)) = p_bcc (printableUID s)"
  by (induction ls arbitrary: s) (simp_all add: load_line_frame)

lemma load_text_frame:
  "totalPages (load_text text s0) = totalPages s0 \<and>
   p_bcc (printableUID (load_text text s0)) = p_bcc (printableUID s0)"
  by (simp add: load_text_def parse_data_frame foldl_load_line_frame)

lemma load_save_round_trip:
  assumes "clean (p_picc_type (printableUID s))" "clean (p_uid (printableUID s))"
    "clean (p_sak (printableUID s))" "clean (p_atqa (printableUID s))"
    "page_lines ls" "strAllPages s = page_text ls"
  shows "p_picc_type (printableUID (load_text (save_text s) s0)) = p_picc_type (printableUID s) \<and>
         p_uid (printableUID (load_text (save_text s) s0)) = p_uid (printableUID s) \<and>
         p_sak (printableUID (load_text (save_text s) s0)) = p_sak (printableUID s) \<and>
         p_atqa (printableUID (load_text (save_text s) s0)) = p_atqa (printableUID s) \<and>
         dataPages (load_text (save_text s) s0) = dataPages s \<and>
         pageReadSuccess (load_text (save_text s) s0) = pageReadSuccess s \<and>
         strAllPages (load_text (save_text s) s0) = strAllPages s \<and>
         p_bcc (printableUID (load_text (save_text s) s0)) = p_bcc (printableUID s0) \<and>
         totalPages (load_text (save_text s) s0) = totalPages s0"
proof -
  have "trim (p_sak (printableUID s)) = p_sak (printableUID s)"
    using assms(3) by (simp add: clean_def trim_trimmed)
  then show ?thesis
    unfolding load_text_def foldl_load_line_save_text[OF assms]
    by (simp add: parse_data_frame)
qed


lemma sample_dump_clean:
  "clean (p_picc_type (printableUID sample_dump))" "clean (p_uid (printableUID sample_dump))"
  "clean (p_sak (printableUID sample_dump))" "clean (p_atqa (printableUID sample_dump))"
  "page_lines [''Page 0: DE AD BE EF 22 08 04 00 62 63 64 65 66 67 68 69'',
               ''Page 1: 00 00 00 00 00 00 00 00 00 00 00 00 00 00 00 00'']"
  "strAllPages sample_dump = page_text [''Page 0: DE AD BE EF 22 08 04 00 62 63 64 65 66 67 68 69'',
                                        ''Page 1: 00 00 00 00 00 00 00 00 00 00 00 00 00 00 00 00'']"
  by (simp_all add: sample_dump_def clean_def trimmed_def isspace_def page_lines_def startsWith_def)

text \<open>
  Claim C3 (as amended). Take a dump whose device type, UID, SAK and ATQA strings hold no
  line feed and no white space at either end, and whose page text is a sequence of lines
  that start with \<open>Page\<close> and a blank (whatever their indices). Loading the text that
  \<open>save\<close> writes for it, into any session, gives back these four strings, the captured-page
  counter, the completeness flag and the page text. The BCC string and the declared total
  page count are not in the file: they keep the values the loading session had.
\<close>

theorem dump_round_trip:
  assumes "clean (p_picc_type (printableUID s))" "clean (p_uid (printableUID s))"
    "clean (p_sak (printableUID s))" "clean (p_atqa (printableUID s))"
    "page_lines ls" "strAllPages s = page_text ls"
  shows "p_picc_type (printableUID (load_text (save_text s) s0)) = p_picc_type (printableUID s) \<and>
         p_uid (printableUID (load_text (save_text s) s0)) = p_uid (printableUID s) \<and>
         p_sak (printableUID (load_text (save_text s) s0)) = p_sak (printableUID s) \<and>
         p_atqa (printableUID (load_text (save_text s) s0)) = p_atqa (printableUID s) \<and>
         dataPages (load_text (save_text s) s0) = dataPages s \<and>
         pageReadSuccess (load_text (save_text s) s0) = pageReadSuccess s \<and>
         strAllPages (load_text (save_text s) s0) = strAllPages s \<and>
         p_bcc (printableUID (load_text (save_text s) s0)) = p_bcc (printableUID s0) \<and>
         totalPages (load_text (save_text s) s0) = totalPages s0"
  using assms by (rule load_save_round_trip)

text \<open>
  A two-page dump of a 1K tag, loaded into a fresh session.
\<close>

theorem dump_round_trip_witness:
  "strAllPages (load_text (save_text sample_dump) new_session) = strAllPages sample_dump \<and>
   dataPages (load_text (save_text sample_dump) new_session) = 2 \<and>
   pageReadSuccess (load_text (save_text sample_dump) new_session) = False \<and>
   p_uid (printableUID (load_text (save_text sample_dump) new_session)) = ''DE AD BE EF'' \<and>
   p_sak (printableUID (load_text (save_text sample_dump) new_session)) = ''08'' \<and>
   p_atqa (printableUID (load_text (save_text sample_dump) new_session)) = ''00 04'' \<and>
   p_picc_type (printableUID (load_text (save_text sample_dump) new_session)) = ''MIFARE 1KB''"
proof -
  note r = dump_round_trip[OF sample_dump_clean, of new_session]
  have f: "dataPages sample_dump = 2" "pageReadSuccess sample_dump = False"
    "p_uid (printableUID sample_dump) = ''DE AD BE EF''" "p_sak (printableUID sample_dump) = ''08''"
    "p_atqa (printableUID sample_dump) = ''00 04''" "p_picc_type (printableUID sample_dump) = ''MIFARE 1KB''"
    by (simp_all add: sample_dump_def)
  from r show ?thesis unfolding f by blast
qed

text \<open>
  The same dump has \<open>totalPages = 64\<close> and BCC 22; the session that loads its file has
  \<open>totalPages = 0\<close> and no BCC. A dump that differs only in \<open>totalPages\<close> has the same file.
\<close>

theorem dump_round_trip_loses_total_counterexample:
  "totalPages sample_dump = 64 \<and> totalPages (load_text (save_text sample_dump) new_session) = 0 \<and>
   p_bcc (printableUID sample_dump) = ''22'' \<and>
   p_bcc (printableUID (load_text (save_text sample_dump) new_session)) = [] \<and>
   save_text (sample_dump\<lparr>totalPages := 20\<rparr>) = save_text sample_dump"
  by (simp add: load_text_frame sample_dump_def new_session_def save_text_def)

end
